theory Spec2Isabelle
  imports Main "HOL-Library.Word" "HOL-Library.Product_Lexorder" "HOL-Library.Multiset"
begin

unbundle bit_operations_syntax

section \<open>Machine integers and the bytes of the graph file\<close>

text \<open>
  The programs keep node ids, addresses and counts in C \<open>int\<close> variables (32 bits, two's
  complement). The model keeps the value of such a variable as an \<open>int\<close> and converts at
  the places where the source does: \<open>word_of_int\<close> where an \<open>int\<close> is passed to
  \<open>__builtin_bswap32\<close> (conversion to \<open>uint32_t\<close>), \<open>sint\<close> where the result is
  stored back into an \<open>int\<close>. A file is the list of its bytes.
\<close>

type_synonym byte = "8 word"
type_synonym word32 = "32 word"

text \<open>The byte order in which the host keeps an \<open>int\<close> in memory; \<open>fwrite\<close>,
  \<open>fread\<close> and \<open>istream::read\<close> copy that representation unchanged.\<close>

datatype endian = Little_Endian | Big_Endian

text \<open>Every way in which a run stops without a result: the library aborts, or the
  C standard leaves the behaviour undefined.\<close>

datatype fault =
    Null_Token         \<comment> \<open>\<open>strtok\<close> found no token and \<open>atoi\<close> received its null result\<close>
  | Int_Overflow       \<comment> \<open>a value that does not fit an \<open>int\<close>\<close>
  | Short_Header       \<comment> \<open>fewer than 8 header bytes: the counts are read from an unset buffer\<close>
  | Bad_Size           \<comment> \<open>a negative node or edge count handed to the graph library\<close>
  | Out_Of_Bounds      \<comment> \<open>a store past the end of the edge vector\<close>
  | Invalid_Vertex     \<comment> \<open>an edge endpoint outside \<open>[0, N)\<close> handed to the graph library\<close>
  | No_Fixpoint        \<comment> \<open>the component search does not return\<close>

definition int_min :: int where
  "int_min = - (2 ^ 31)"

definition int_max :: int where
  "int_max = 2 ^ 31 - 1"

definition in_int_range :: "int \<Rightarrow> bool" where
  "in_int_range x = (int_min \<le> x \<and> x \<le> int_max)"

text \<open>\<open>__builtin_bswap32\<close>: the four bytes of the argument in reverse order.\<close>

definition bswap32 :: "word32 \<Rightarrow> word32" where
  "bswap32 w = push_bit 24 (w AND 0xFF) OR push_bit 8 (w AND 0xFF00)
     OR (drop_bit 8 w AND 0xFF00) OR drop_bit 24 w"

definition store_le :: "word32 \<Rightarrow> byte list" where
  "store_le w = [ucast w, ucast (drop_bit 8 w), ucast (drop_bit 16 w), ucast (drop_bit 24 w)]"

definition join_le :: "byte \<Rightarrow> byte \<Rightarrow> byte \<Rightarrow> byte \<Rightarrow> word32" where
  "join_le b0 b1 b2 b3 =
     ucast b0 OR push_bit 8 (ucast b1) OR push_bit 16 (ucast b2) OR push_bit 24 (ucast b3)"

fun load_le :: "byte list \<Rightarrow> word32" where
  "load_le [b0, b1, b2, b3] = join_le b0 b1 b2 b3"
| "load_le _ = 0"

text \<open>The memory image of an \<open>int\<close> on the host, and the \<open>int\<close> held by four bytes of
  memory.\<close>

definition store_word :: "endian \<Rightarrow> word32 \<Rightarrow> byte list" where
  "store_word h w = (case h of Little_Endian \<Rightarrow> store_le w | Big_Endian \<Rightarrow> rev (store_le w))"

definition load_word :: "endian \<Rightarrow> byte list \<Rightarrow> word32" where
  "load_word h bs = (case h of Little_Endian \<Rightarrow> load_le bs | Big_Endian \<Rightarrow> load_le (rev bs))"

text \<open>\<open>buf[k] = __builtin_bswap32(x); fwrite(buf, ...)\<close> of builder.cpp (versions 0.2 and
  1.0), and \<open>int x = __builtin_bswap32(buf[k])\<close> after a read in analyzer.cpp (version
  0.2) and clustering.cpp.\<close>

definition write_swapped :: "endian \<Rightarrow> int \<Rightarrow> byte list" where
  "write_swapped h x = store_word h (bswap32 (word_of_int x))"

definition read_swapped :: "endian \<Rightarrow> byte list \<Rightarrow> int" where
  "read_swapped h bs = sint (bswap32 (load_word h bs))"

text \<open>\<open>(igraph_integer_t) (__builtin_bswap32(buf[k]))\<close> in the loop of
  \<open>read_graph_binary\<close>: the result of the swap is a \<open>uint32_t\<close>, and the cast to
  the 64-bit \<open>igraph_integer_t\<close> keeps its unsigned value.\<close>

definition read_swapped_unsigned :: "endian \<Rightarrow> byte list \<Rightarrow> int" where
  "read_swapped_unsigned h bs = uint (bswap32 (load_word h bs))"

text \<open>\<open>int x = int_pair[k]\<close> of the analyzer version 0.1: the bytes are taken as they
  lie in memory.\<close>

definition read_native :: "endian \<Rightarrow> byte list \<Rightarrow> int" where
  "read_native h bs = sint (load_word h bs)"

text \<open>\<open>fseek(f, pos, SEEK_SET)\<close> followed by \<open>fwrite\<close> of \<open>bs\<close>: a gap between the
  end of the file and \<open>pos\<close> is filled with zero bytes.\<close>

definition fwrite_at :: "nat \<Rightarrow> byte list \<Rightarrow> byte list \<Rightarrow> byte list" where
  "fwrite_at pos bs file =
     (let padded = file @ replicate (pos - length file) 0
      in take pos padded @ bs @ drop (pos + length bs) padded)"

section \<open>Reading the graph file: analyzer.cpp (0.2) and the analyzer of version 0.1\<close>

text \<open>The loop \<open>while (input_file.read((char*) &buf, 2*sizeof(int)))\<close>: one edge for
  every complete group of 8 bytes; a shorter tail fails the read and ends the loop.\<close>

fun read_records :: "(byte list \<Rightarrow> int) \<Rightarrow> byte list \<Rightarrow> (int \<times> int) list" where
  "read_records rd (b0 # b1 # b2 # b3 # b4 # b5 # b6 # b7 # rest) =
     (rd [b0, b1, b2, b3], rd [b4, b5, b6, b7]) # read_records rd rest"
| "read_records rd _ = []"

text \<open>The graph as the analyzers hold it: the node count and the edges in the order
  in which they were added.\<close>

record graph =
  num_nodes :: int
  edge_list :: "(int \<times> int) list"

definition valid_vertex :: "int \<Rightarrow> int \<Rightarrow> bool" where
  "valid_vertex n u = (0 \<le> u \<and> u < n)"

definition valid_edges :: "int \<Rightarrow> (int \<times> int) list \<Rightarrow> bool" where
  "valid_edges n es = list_all (\<lambda>(u, v). valid_vertex n u \<and> valid_vertex n v) es"

text \<open>Lines 46--62 of analyzer.cpp, with the read of an \<open>int\<close> as a parameter (swapped
  in version 0.2, native in version 0.1). \<open>reserveNode\<close> and \<open>reserveEdge\<close> are
  \<open>std::vector::reserve\<close> calls: a negative count is not a size and ends the run, any
  other count changes nothing that the program can observe (memory is not bounded in the
  model). \<open>nodeFromId\<close> does not check its argument, and \<open>addEdge\<close> then indexes
  the node table with it.\<close>

definition lemon_read_graph :: "(byte list \<Rightarrow> int) \<Rightarrow> byte list \<Rightarrow> fault + graph" where
  "lemon_read_graph rd file =
     (if length file < 8 then Inl Short_Header
      else let n = rd (take 4 file); m = rd (take 4 (drop 4 file)) in
        if n < 0 \<or> m < 0 then Inl Bad_Size
        else let es = read_records rd (drop 8 file) in
          if valid_edges n es then Inr \<lparr>num_nodes = n, edge_list = es\<rparr>
          else Inl Invalid_Vertex)"

definition analyzer_read_graph :: "endian \<Rightarrow> byte list \<Rightarrow> fault + graph" where
  "analyzer_read_graph h file = lemon_read_graph (read_swapped h) file"

definition analyzer01_read_graph :: "endian \<Rightarrow> byte list \<Rightarrow> fault + graph" where
  "analyzer01_read_graph h file = lemon_read_graph (read_native h) file"

section \<open>Reading the graph file: clustering.cpp (1.0)\<close>

text \<open>\<open>fread(buf, sizeof(int), 2, input_file)\<close> on the 8-byte buffer \<open>buf\<close>: the bytes
  that are left, at most 8, overwrite the front of the buffer, and the result is the number
  of complete 4-byte items among them.\<close>

definition fread2 :: "byte list \<Rightarrow> byte list \<Rightarrow> nat \<times> byte list \<times> byte list" where
  "fread2 buf file =
     (let chunk = take 8 file
      in (length chunk div 4, chunk @ drop (length chunk) buf, drop 8 file))"

text \<open>The loop of \<open>read_graph_binary\<close>: \<open>edges\<close> is the igraph vector (flat, two
  entries per edge), \<open>i\<close> the next index. \<open>VECTOR(edges)[i]\<close> is an unchecked array
  access.\<close>

function read_edge_loop ::
  "endian \<Rightarrow> byte list \<Rightarrow> byte list \<Rightarrow> nat \<Rightarrow> int list \<Rightarrow> fault + int list" where
  "read_edge_loop h buf file i edges =
     (case fread2 buf file of (num_read, buf', file') \<Rightarrow>
        if num_read > 0 then
          (if i + 1 < length edges then
             read_edge_loop h buf' file' (i + 2)
               (edges[i := read_swapped_unsigned h (take 4 buf'),
                      i + 1 := read_swapped_unsigned h (take 4 (drop 4 buf'))])
           else Inl Out_Of_Bounds)
        else Inr edges)"
  by pat_completeness auto
termination
  by (relation "measure (\<lambda>(h, buf, file, i, edges). length file)")
     (auto simp: fread2_def Let_def split: if_splits)

declare read_edge_loop.simps [simp del]

text \<open>The pairs that \<open>igraph_add_edges\<close> reads from the flat vector.\<close>

fun edge_pairs :: "int list \<Rightarrow> (int \<times> int) list" where
  "edge_pairs (u # v # rest) = (u, v) # edge_pairs rest"
| "edge_pairs _ = []"

text \<open>\<open>read_graph_binary\<close>. The header read fills \<open>buf\<close>; with fewer than 8 bytes the
  edge count is read from an unset buffer. \<open>igraph_empty\<close> refuses a negative node
  count and \<open>igraph_vector_int_init\<close> a negative size; \<open>2 * num_edges\<close> is computed in
  \<open>int\<close>. \<open>igraph_vector_int_init\<close> fills the vector with zeros. \<open>igraph_add_edges\<close>
  refuses an endpoint outside \<open>[0, N)\<close>. The program installs no error handler, so
  igraph's default handler ends the run at each refusal.\<close>

definition read_graph_binary :: "endian \<Rightarrow> byte list \<Rightarrow> int \<Rightarrow> fault + graph" where
  "read_graph_binary h file forced_nodes =
     (if length file < 8 then Inl Short_Header
      else let buf = take 8 file;
               n = (if forced_nodes = 0 then read_swapped h (take 4 buf) else forced_nodes);
               m = read_swapped h (take 4 (drop 4 buf)) in
        if n < 0 then Inl Bad_Size
        else if \<not> in_int_range (2 * m) then Inl Int_Overflow
        else if m < 0 then Inl Bad_Size
        else case read_edge_loop h buf (drop 8 file) 0 (replicate (nat (2 * m)) 0) of
               Inl e \<Rightarrow> Inl e
             | Inr edges \<Rightarrow>
                 if valid_edges n (edge_pairs edges)
                 then Inr \<lparr>num_nodes = n, edge_list = edge_pairs edges\<rparr>
                 else Inl Invalid_Vertex)"

section \<open>The C string functions of the builders\<close>

text \<open>\<open>isspace\<close> and \<open>isdigit\<close> in the C locale.\<close>

definition isspace :: "char \<Rightarrow> bool" where
  "isspace c = (c = CHR '' '' \<or> (9 \<le> (of_char c :: nat) \<and> (of_char c :: nat) \<le> 13))"

definition isdigit :: "char \<Rightarrow> bool" where
  "isdigit c = (48 \<le> (of_char c :: nat) \<and> (of_char c :: nat) \<le> 57)"

fun digits_value :: "int \<Rightarrow> string \<Rightarrow> int" where
  "digits_value acc [] = acc"
| "digits_value acc (c # cs) =
     (if isdigit c then digits_value (10 * acc + (int (of_char c) - 48)) cs else acc)"

text \<open>\<open>atoi\<close>: white space is skipped, then an optional sign and the longest run of
  digits are converted; with no digit the result is 0 and nothing reports it. C leaves
  the behaviour undefined when the value does not fit an \<open>int\<close>.\<close>

definition atoi :: "string \<Rightarrow> fault + int" where
  "atoi s =
     (let t = dropWhile isspace s;
          v = (case t of
                 [] \<Rightarrow> 0
               | c # cs \<Rightarrow>
                   if c = CHR ''-'' then - digits_value 0 cs
                   else if c = CHR ''+'' then digits_value 0 cs
                   else digits_value 0 t)
      in if in_int_range v then Inr v else Inl Int_Overflow)"

text \<open>The C string held by a buffer ends at its first NUL byte.\<close>

definition c_str :: "string \<Rightarrow> string" where
  "c_str buf = takeWhile (\<lambda>c. c \<noteq> CHR 0x00) buf"

text \<open>The tokens that successive calls \<open>strsep(&p, d)\<close> return until \<open>p\<close> is null:
  the pieces between the delimiters, empty pieces included.\<close>

fun strsep_tokens :: "char \<Rightarrow> string \<Rightarrow> string list" where
  "strsep_tokens d [] = [[]]"
| "strsep_tokens d (c # cs) =
     (if c = d then [] # strsep_tokens d cs
      else (case strsep_tokens d cs of
              [] \<Rightarrow> [[c]]
            | t # ts \<Rightarrow> (c # t) # ts))"

text \<open>The tokens that successive calls of \<open>strtok_r\<close> (or \<open>strtok\<close>) return until the
  null result: leading delimiters are skipped before each token, so only the non-empty
  pieces are returned.\<close>

definition strtok_tokens :: "char \<Rightarrow> string \<Rightarrow> string list" where
  "strtok_tokens d s = filter (\<lambda>t. t \<noteq> []) (strsep_tokens d s)"

text \<open>\<open>atoi(strtok(item, ","))\<close>: when the item holds no character other than commas,
  \<open>strtok\<close> returns null and \<open>atoi\<close> reads through the null pointer.\<close>

definition atoi_strtok :: "string \<Rightarrow> fault + int" where
  "atoi_strtok item =
     (case strtok_tokens CHR '','' item of
        [] \<Rightarrow> Inl Null_Token
      | address_str # _ \<Rightarrow> atoi address_str)"

text \<open>The lines that \<open>getline\<close> returns until the end of the file: each line keeps its
  newline, and a last line without one is returned as it is.\<close>

fun getlines_from :: "string \<Rightarrow> string \<Rightarrow> string list" where
  "getlines_from cur [] = (if cur = [] then [] else [rev cur])"
| "getlines_from cur (c # cs) =
     (if c = CHR 0x0A then rev (c # cur) # getlines_from [] cs
      else getlines_from (c # cur) cs)"

definition getlines :: "string \<Rightarrow> string list" where
  "getlines input = getlines_from [] input"

section \<open>The builder, version 1.0 (builder.cpp)\<close>

text \<open>The state of a run: \<open>max_id\<close> and the vector \<open>edges\<close>.\<close>

type_synonym builder_state = "int \<times> (int \<times> int) list"

text \<open>\<open>std::minmax(a, b)\<close>.\<close>

definition minmax :: "int \<Rightarrow> int \<Rightarrow> int \<times> int" where
  "minmax a b = (if b < a then (b, a) else (a, b))"

text \<open>The \<open>while\<close> loop of \<open>process_inputs\<close> over the inputs after the first.\<close>

fun inputs_loop :: "int \<Rightarrow> string list \<Rightarrow> builder_state \<Rightarrow> fault + builder_state" where
  "inputs_loop first_address [] st = Inr st"
| "inputs_loop first_address (input # rest) (max_id, es) =
     (case atoi_strtok input of
        Inl e \<Rightarrow> Inl e
      | Inr curr_address \<Rightarrow>
          if curr_address = first_address then inputs_loop first_address rest (max_id, es)
          else inputs_loop first_address rest
                 (if curr_address \<ge> max_id then curr_address else max_id,
                  es @ [minmax first_address curr_address]))"

text \<open>\<open>process_inputs\<close>. When the string holds semicolons only, the first
  \<open>strtok_r\<close> returns null, and \<open>strtok(NULL, ",")\<close> resumes the scan that the
  previous call of \<open>strtok\<close> left in a buffer that \<open>getline\<close> has overwritten since
  (or has no scan to resume); the model stops there with the fault of a null token.\<close>

definition process_inputs :: "string \<Rightarrow> builder_state \<Rightarrow> fault + builder_state" where
  "process_inputs inputs st =
     (case strtok_tokens CHR '';'' inputs of
        [] \<Rightarrow> Inl Null_Token
      | input # rest \<Rightarrow>
          (case atoi_strtok input of
             Inl e \<Rightarrow> Inl e
           | Inr first_address \<Rightarrow>
               inputs_loop first_address rest
                 (if first_address \<ge> fst st then first_address else fst st, snd st)))"

fun outputs_loop :: "string list \<Rightarrow> builder_state \<Rightarrow> fault + builder_state" where
  "outputs_loop [] st = Inr st"
| "outputs_loop (output_str # rest) (max_id, es) =
     (case atoi_strtok output_str of
        Inl e \<Rightarrow> Inl e
      | Inr address \<Rightarrow>
          outputs_loop rest (if address \<ge> max_id then address else max_id, es))"

definition process_outputs :: "string \<Rightarrow> builder_state \<Rightarrow> fault + builder_state" where
  "process_outputs outputs st = outputs_loop (strtok_tokens CHR '';'' outputs) st"

text \<open>The \<open>while\<close> loop of \<open>process_line\<close> over the tokens of the line, with
  \<open>token_count\<close>.\<close>

fun line_loop :: "string list \<Rightarrow> nat \<Rightarrow> builder_state \<Rightarrow> fault + builder_state" where
  "line_loop [] token_count st = Inr st"
| "line_loop (token # rest) token_count st =
     (case (if token_count = 1 \<and> token \<noteq> [] then process_inputs token st else Inr st) of
        Inl e \<Rightarrow> Inl e
      | Inr st1 \<Rightarrow>
          (case (if token_count = 2 \<and> token \<noteq> [] then process_outputs token st1 else Inr st1) of
             Inl e \<Rightarrow> Inl e
           | Inr st2 \<Rightarrow> line_loop rest (token_count + 1) st2))"

definition process_line :: "string \<Rightarrow> builder_state \<Rightarrow> fault + builder_state" where
  "process_line line_buf st = line_loop (strsep_tokens CHR '':'' (c_str line_buf)) 0 st"

text \<open>The \<open>getline\<close> loop of \<open>main\<close>.\<close>

fun read_lines :: "string list \<Rightarrow> builder_state \<Rightarrow> fault + builder_state" where
  "read_lines [] st = Inr st"
| "read_lines (line_buf # rest) st =
     (case process_line line_buf st of
        Inl e \<Rightarrow> Inl e
      | Inr st' \<Rightarrow> read_lines rest st')"

text \<open>The write loop of \<open>main\<close>: after \<open>fseek(output_file, 8, SEEK_SET)\<close> every kept
  edge is written at the current position, which advances by 8.\<close>

fun write_edges :: "endian \<Rightarrow> (int \<times> int) list \<Rightarrow> nat \<Rightarrow> byte list \<Rightarrow> byte list" where
  "write_edges h [] pos file = file"
| "write_edges h ((u, v) # rest) pos file =
     write_edges h rest (pos + 8) (fwrite_at pos (write_swapped h u @ write_swapped h v) file)"

text \<open>\<open>main\<close> from line 152 to line 176, for the contents \<open>input\<close> of the input file,
  with the result of \<open>std::sort\<close> as a parameter: the node count and the edges that
  are written. The loop keeps \<open>edges[i]\<close> when \<open>i == 0\<close> or
  \<open>edges[i] != edges[i-1]\<close>, which is \<open>remdups_adj\<close>. \<open>max_id + 1\<close> and the index
  \<open>i\<close> are computed in \<open>int\<close>.\<close>

definition builder_graph_with ::
  "((int \<times> int) list \<Rightarrow> (int \<times> int) list) \<Rightarrow> string \<Rightarrow> fault + int \<times> (int \<times> int) list" where
  "builder_graph_with std_sort input =
     (case read_lines (getlines input) (0, []) of
        Inl e \<Rightarrow> Inl e
      | Inr (max_id, es) \<Rightarrow>
          if \<not> in_int_range (max_id + 1) \<or> \<not> in_int_range (int (length es)) then Inl Int_Overflow
          else Inr (max_id + 1, remdups_adj (std_sort es)))"

text \<open>The file that is left when the run ends: the edges from offset 8 on, then the two
  counts at offset 0.\<close>

definition write_graph :: "endian \<Rightarrow> int \<times> (int \<times> int) list \<Rightarrow> byte list" where
  "write_graph h g =
     (let num_nodes = fst g;
          num_edges = int (length (snd g));
          body = write_edges h (snd g) 8 []
      in fwrite_at 0 (write_swapped h num_nodes @ write_swapped h num_edges) body)"

definition builder_main_with ::
  "((int \<times> int) list \<Rightarrow> (int \<times> int) list) \<Rightarrow> endian \<Rightarrow> string \<Rightarrow> fault + byte list" where
  "builder_main_with std_sort h input =
     (case builder_graph_with std_sort input of
        Inl e \<Rightarrow> Inl e
      | Inr g \<Rightarrow> Inr (write_graph h g))"

text \<open>The run with the library's \<open>std::sort\<close>: pairs are ordered by \<open>operator<\<close> of
  \<open>std::pair\<close>, first component first.\<close>

definition builder_graph :: "string \<Rightarrow> fault + int \<times> (int \<times> int) list" where
  "builder_graph input = builder_graph_with sort input"

definition builder_main :: "endian \<Rightarrow> string \<Rightarrow> fault + byte list" where
  "builder_main h input = builder_main_with sort h input"

section \<open>The builder, version 0.2\<close>

text \<open>The state of a run: the node map \<open>nodes\<close> (the pairs of the \<open>unordered_map\<close>,
  in the order in which they were stored), the edge set \<open>edges\<close> (a \<open>std::set\<close>, kept
  as the increasing list that its iterator walks) and \<open>id_count\<close>.\<close>

type_synonym builder02_state = "(int \<times> int) list \<times> (int \<times> int) list \<times> int"

text \<open>\<open>std::set::insert\<close>.\<close>

definition set_insert :: "'a::linorder \<Rightarrow> 'a list \<Rightarrow> 'a list" where
  "set_insert x xs = (if x \<in> set xs then xs else insort x xs)"

definition contains_node :: "(int \<times> int) list \<Rightarrow> int \<Rightarrow> int" where
  "contains_node nodes address = (case map_of nodes address of Some i \<Rightarrow> i | None \<Rightarrow> - 1)"

text \<open>\<open>nodes[address] = id\<close>.\<close>

fun node_store :: "int \<Rightarrow> int \<Rightarrow> (int \<times> int) list \<Rightarrow> (int \<times> int) list" where
  "node_store address i [] = [(address, i)]"
| "node_store address i ((a, j) # rest) =
     (if a = address then (a, i) # rest else (a, j) # node_store address i rest)"

text \<open>The first loop of \<open>process_inputs\<close>: the addresses of the items are collected in
  a \<open>std::set<int>\<close>.\<close>

fun collect_addresses :: "string list \<Rightarrow> int list \<Rightarrow> fault + int list" where
  "collect_addresses [] input_addresses = Inr input_addresses"
| "collect_addresses (input_str # rest) input_addresses =
     (case atoi_strtok input_str of
        Inl e \<Rightarrow> Inl e
      | Inr address \<Rightarrow> collect_addresses rest (set_insert address input_addresses))"

text \<open>The second loop: a path through the addresses of the set, in increasing order.\<close>

fun path_loop :: "int list \<Rightarrow> int \<Rightarrow> builder02_state \<Rightarrow> fault + builder02_state" where
  "path_loop [] prev_id st = Inr st"
| "path_loop (curr_addr # rest) prev_id (nodes, es, id_count) =
     (if contains_node nodes curr_addr = - 1 then
        (if \<not> in_int_range (id_count + 1) then Inl Int_Overflow
         else path_loop rest id_count
                (node_store curr_addr id_count nodes,
                 (if prev_id \<noteq> - 1 then set_insert (prev_id, id_count) es else es),
                 id_count + 1))
      else path_loop rest (contains_node nodes curr_addr)
             (nodes,
              (if prev_id \<noteq> - 1 then set_insert (prev_id, contains_node nodes curr_addr) es else es),
              id_count))"

definition process_inputs02 :: "string \<Rightarrow> builder02_state \<Rightarrow> fault + builder02_state" where
  "process_inputs02 inputs st =
     (case collect_addresses (strtok_tokens CHR '';'' inputs) [] of
        Inl e \<Rightarrow> Inl e
      | Inr input_addresses \<Rightarrow> path_loop input_addresses (- 1) st)"

fun outputs_loop02 :: "string list \<Rightarrow> builder02_state \<Rightarrow> fault + builder02_state" where
  "outputs_loop02 [] st = Inr st"
| "outputs_loop02 (output_str # rest) (nodes, es, id_count) =
     (case atoi_strtok output_str of
        Inl e \<Rightarrow> Inl e
      | Inr address \<Rightarrow>
          if contains_node nodes address = - 1 then
            (if \<not> in_int_range (id_count + 1) then Inl Int_Overflow
             else outputs_loop02 rest (node_store address id_count nodes, es, id_count + 1))
          else outputs_loop02 rest (nodes, es, id_count))"

definition process_outputs02 :: "string \<Rightarrow> builder02_state \<Rightarrow> fault + builder02_state" where
  "process_outputs02 outputs st = outputs_loop02 (strtok_tokens CHR '';'' outputs) st"

fun line_loop02 :: "string list \<Rightarrow> nat \<Rightarrow> builder02_state \<Rightarrow> fault + builder02_state" where
  "line_loop02 [] token_count st = Inr st"
| "line_loop02 (token # rest) token_count st =
     (case (if token_count = 1 \<and> token \<noteq> [] then process_inputs02 token st else Inr st) of
        Inl e \<Rightarrow> Inl e
      | Inr st1 \<Rightarrow>
          (case (if token_count = 2 \<and> token \<noteq> [] then process_outputs02 token st1 else Inr st1) of
             Inl e \<Rightarrow> Inl e
           | Inr st2 \<Rightarrow> line_loop02 rest (token_count + 1) st2))"

definition process_line02 :: "string \<Rightarrow> builder02_state \<Rightarrow> fault + builder02_state" where
  "process_line02 line_buf st = line_loop02 (strsep_tokens CHR '':'' (c_str line_buf)) 0 st"

fun read_lines02 :: "string list \<Rightarrow> builder02_state \<Rightarrow> fault + builder02_state" where
  "read_lines02 [] st = Inr st"
| "read_lines02 (line_buf # rest) st =
     (case process_line02 line_buf st of
        Inl e \<Rightarrow> Inl e
      | Inr st' \<Rightarrow> read_lines02 rest st')"

text \<open>The state when the \<open>getline\<close> loop of \<open>main\<close> ends.\<close>

definition builder02_run :: "string \<Rightarrow> fault + builder02_state" where
  "builder02_run input = read_lines02 (getlines input) ([], [], 0)"

text \<open>The file: \<open>nodes.size()\<close>, \<open>edges.size()\<close>, then the edges in the order of the
  set.\<close>

definition builder02_main :: "endian \<Rightarrow> string \<Rightarrow> fault + byte list" where
  "builder02_main h input =
     (case builder02_run input of
        Inl e \<Rightarrow> Inl e
      | Inr (nodes, es, id_count) \<Rightarrow>
          Inr (write_swapped h (int (length nodes)) @ write_swapped h (int (length es)) @
               concat (map (\<lambda>(u, v). write_swapped h u @ write_swapped h v) es)))"

section \<open>The connected-components engine\<close>

text \<open>
  Modelled from the spec: the computation of the connected components. The analyzers call
  \<open>igraph_connected_components\<close> (clustering.cpp) and \<open>lemon::connectedComponents\<close>
  (analyzer.cpp), whose code is not among the sources. Section 4.4 of the specification
  fixes the algorithm: union-find over \<open>N\<close> elements with path compression and union by
  rank; for each edge the sets of its two endpoints are united; after the last edge the
  representative that \<open>find\<close> returns for an element is its component id.
\<close>

type_synonym union_find = "nat list \<times> nat list"

definition uf_init :: "nat \<Rightarrow> union_find" where
  "uf_init n = ([0..<n], replicate n 0)"

text \<open>The root of the tree of \<open>i\<close>: the parent links are followed until an element is
  its own parent.\<close>

partial_function (option) uf_root :: "nat list \<Rightarrow> nat \<Rightarrow> nat option" where
  "uf_root parent i =
     (if i < length parent
      then (if parent ! i = i then Some i else uf_root parent (parent ! i))
      else None)"

text \<open>Path compression: every element on the path from \<open>i\<close> to the root is linked to
  the root.\<close>

partial_function (option) uf_compress :: "nat list \<Rightarrow> nat \<Rightarrow> nat \<Rightarrow> nat list option" where
  "uf_compress parent i root =
     (if i = root then Some parent
      else if i < length parent then uf_compress (parent[i := root]) (parent ! i) root
      else None)"

declare uf_root.simps [code]

declare uf_compress.simps [code]

definition uf_find :: "nat list \<Rightarrow> nat \<Rightarrow> (nat \<times> nat list) option" where
  "uf_find parent i =
     (case uf_root parent i of
        None \<Rightarrow> None
      | Some root \<Rightarrow>
          (case uf_compress parent i root of
             None \<Rightarrow> None
           | Some parent' \<Rightarrow> Some (root, parent')))"

text \<open>Union by rank of the trees with roots \<open>ru\<close> and \<open>rv\<close>.\<close>

definition uf_link :: "union_find \<Rightarrow> nat \<Rightarrow> nat \<Rightarrow> union_find" where
  "uf_link uf ru rv =
     (let parent = fst uf; rank = snd uf in
      if ru = rv then (parent, rank)
      else if rank ! ru < rank ! rv then (parent[ru := rv], rank)
      else if rank ! rv < rank ! ru then (parent[rv := ru], rank)
      else (parent[rv := ru], rank[ru := rank ! ru + 1]))"

definition uf_union :: "union_find \<Rightarrow> nat \<Rightarrow> nat \<Rightarrow> union_find option" where
  "uf_union uf u v =
     (case uf_find (fst uf) u of
        None \<Rightarrow> None
      | Some (ru, p1) \<Rightarrow>
          (case uf_find p1 v of
             None \<Rightarrow> None
           | Some (rv, p2) \<Rightarrow> Some (uf_link (p2, snd uf) ru rv)))"

fun uf_unions :: "(nat \<times> nat) list \<Rightarrow> union_find \<Rightarrow> union_find option" where
  "uf_unions [] uf = Some uf"
| "uf_unions ((u, v) # es) uf =
     (case uf_union uf u v of
        None \<Rightarrow> None
      | Some uf' \<Rightarrow> uf_unions es uf')"

fun uf_labels :: "nat list \<Rightarrow> nat list \<Rightarrow> nat list option" where
  "uf_labels [] parent = Some []"
| "uf_labels (i # rest) parent =
     (case uf_find parent i of
        None \<Rightarrow> None
      | Some (root, parent') \<Rightarrow>
          (case uf_labels rest parent' of
             None \<Rightarrow> None
           | Some ls \<Rightarrow> Some (root # ls)))"

definition connected_components :: "nat \<Rightarrow> (nat \<times> nat) list \<Rightarrow> nat list option" where
  "connected_components n es =
     (case uf_unions es (uf_init n) of
        None \<Rightarrow> None
      | Some uf \<Rightarrow> uf_labels [0..<n] (fst uf))"

section \<open>The analyzers after the graph is read\<close>

text \<open>The component map \<open>comp_map\<close> of a graph that was read: entry \<open>i\<close> is the
  component id of node \<open>i\<close>.\<close>

definition components :: "graph \<Rightarrow> fault + int list" where
  "components g =
     (case connected_components (nat (num_nodes g))
             (map (\<lambda>(u, v). (nat u, nat v)) (edge_list g)) of
        None \<Rightarrow> Inl No_Fixpoint
      | Some cs \<Rightarrow> Inr (map int cs))"

text \<open>analyzer.cpp up to line 66.\<close>

definition analyzer_components :: "endian \<Rightarrow> byte list \<Rightarrow> fault + int list" where
  "analyzer_components h file =
     (case analyzer_read_graph h file of
        Inl e \<Rightarrow> Inl e
      | Inr g \<Rightarrow> components g)"

text \<open>The lines of the CSV file of clustering.cpp: the header \<open>node_id,comp_id\<close> and
  the rows \<open>%d,%d\<close>.\<close>

datatype csv_line = Header | Row int int

text \<open>\<open>main\<close> of clustering.cpp: \<open>arg3\<close> is \<open>argv[3]\<close> when \<open>argc >= 4\<close>.\<close>

definition num_addresses_of :: "string option \<Rightarrow> fault + int" where
  "num_addresses_of arg3 = (case arg3 of None \<Rightarrow> Inr 0 | Some s \<Rightarrow> atoi s)"

definition clustering_main :: "endian \<Rightarrow> byte list \<Rightarrow> string option \<Rightarrow> fault + csv_line list" where
  "clustering_main h file arg3 =
     (case num_addresses_of arg3 of
        Inl e \<Rightarrow> Inl e
      | Inr num_addresses \<Rightarrow>
          (case read_graph_binary h file num_addresses of
             Inl e \<Rightarrow> Inl e
           | Inr g \<Rightarrow>
               (case components g of
                  Inl e \<Rightarrow> Inl e
                | Inr comp_map \<Rightarrow>
                    Inr (Header # map (\<lambda>i. Row (int i) (comp_map ! i)) [0..<nat (num_nodes g)]))))"

section \<open>The vocabulary of the claims\<close>

text \<open>The fields of a transaction line \<open><metadata>:<inputs>:<outputs>\<close>, and the
  addresses of the items of a field: the first comma-separated field of every
  semicolon-separated item, as the builders read it.\<close>

definition line_token :: "nat \<Rightarrow> string \<Rightarrow> string" where
  "line_token k line_buf =
     (let tokens = strsep_tokens CHR '':'' (c_str line_buf)
      in if k < length tokens then tokens ! k else [])"

definition addrs_of :: "string list \<Rightarrow> int list" where
  "addrs_of items =
     concat (map (\<lambda>item. case atoi_strtok item of Inl e \<Rightarrow> [] | Inr a \<Rightarrow> [a]) items)"

definition item_addresses :: "string \<Rightarrow> int list" where
  "item_addresses field = addrs_of (strtok_tokens CHR '';'' field)"

definition input_addresses :: "string \<Rightarrow> int list" where
  "input_addresses line_buf = item_addresses (line_token 1 line_buf)"

definition output_addresses :: "string \<Rightarrow> int list" where
  "output_addresses line_buf = item_addresses (line_token 2 line_buf)"

text \<open>All addresses of the stream in the order of the file.\<close>

definition lines_addresses :: "string list \<Rightarrow> int list" where
  "lines_addresses ls = concat (map (\<lambda>l. input_addresses l @ output_addresses l) ls)"

definition stream_addresses :: "string \<Rightarrow> int list" where
  "stream_addresses input = lines_addresses (getlines input)"

text \<open>The order in which the builder of version 0.2 looks addresses up in its node map:
  for every line the distinct input addresses in increasing order, then the output
  addresses in the order of the line.\<close>

definition lookup_order_lines :: "string list \<Rightarrow> int list" where
  "lookup_order_lines ls =
     concat (map (\<lambda>l. sorted_list_of_set (set (input_addresses l)) @ output_addresses l) ls)"




text \<open>The edge list as the flat vector of clustering.cpp holds it.\<close>

definition flat_edges :: "(int \<times> int) list \<Rightarrow> int list" where
  "flat_edges es = concat (map (\<lambda>(u, v). [u, v]) es)"

text \<open>The bytes of a list of edge records.\<close>

definition edge_bytes :: "endian \<Rightarrow> (int \<times> int) list \<Rightarrow> byte list" where
  "edge_bytes h es = concat (map (\<lambda>(u, v). write_swapped h u @ write_swapped h v) es)"

section \<open>Auxiliary notions of the proofs\<close>

definition edges_in_range :: "(int \<times> int) list \<Rightarrow> bool" where
  "edges_in_range es = list_all (\<lambda>(u, v). in_int_range u \<and> in_int_range v) es"

text \<open>The value of an \<open>int\<close> after the conversion to \<open>uint32_t\<close>.\<close>

definition as_unsigned :: "int \<Rightarrow> int" where
  "as_unsigned x = x mod 2 ^ 32"

text \<open>The edges that builder.cpp adds for the input addresses of one transaction: every
  address other than the first is paired with the first.\<close>

definition star :: "int list \<Rightarrow> (int \<times> int) list" where
  "star as = (case as of [] \<Rightarrow> [] | f # rest \<Rightarrow> map (minmax f) (filter (\<lambda>a. a \<noteq> f) rest))"

definition lines_edges :: "string list \<Rightarrow> (int \<times> int) list" where
  "lines_edges ls = concat (map (\<lambda>l. star (input_addresses l)) ls)"

definition max_of :: "int \<Rightarrow> int list \<Rightarrow> int" where
  "max_of m xs = fold max xs m"

text \<open>The keys of the node map after a sequence of lookups, in the order in which they
  were stored.\<close>

definition add_key :: "int \<Rightarrow> int list \<Rightarrow> int list" where
  "add_key a ks = (if a \<in> set ks then ks else ks @ [a])"

definition keys_after :: "int list \<Rightarrow> int list \<Rightarrow> int list" where
  "keys_after as ks = fold add_key as ks"

text \<open>The invariant of the state of the builder of version 0.2.\<close>

definition numbered :: "(int \<times> int) list \<Rightarrow> bool" where
  "numbered nodes = (distinct (map fst nodes) \<and> map snd nodes = map int [0..<length nodes])"

definition edges_ascend :: "(int \<times> int) list \<Rightarrow> (int \<times> int) list \<Rightarrow> bool" where
  "edges_ascend nodes es =
     (\<forall>(u, v) \<in> set es. \<exists>a b. a < b \<and> (a, u) \<in> set nodes \<and> (b, v) \<in> set nodes)"

definition inv02 :: "builder02_state \<Rightarrow> bool" where
  "inv02 st = (case st of (nodes, es, c) \<Rightarrow>
     numbered nodes \<and> c = int (length nodes) \<and> sorted es \<and> distinct es \<and> edges_ascend nodes es)"

text \<open>The link \<open>prev_id\<close> of the path loop: none, or the id of an address below all
  addresses that follow.\<close>

definition prev_ok :: "(int \<times> int) list \<Rightarrow> int \<Rightarrow> int list \<Rightarrow> bool" where
  "prev_ok nodes prev_id as =
     (prev_id = - 1 \<or> (\<exists>p. (p, prev_id) \<in> set nodes \<and> (\<forall>a \<in> set as. p < a)))"









section \<open>The byte order of one integer\<close>

lemma join_store_le:
  "join_le (ucast w) (ucast (drop_bit 8 w)) (ucast (drop_bit 16 w)) (ucast (drop_bit 24 w)) = w"
  unfolding join_le_def
  apply (rule bit_word_eqI)
  subgoal for n
    apply (cases "n < 8"; cases "n < 16"; cases "n < 24")
    apply (simp_all add: bit_simps)
    apply auto
    done
  done

lemma store_join_le: "store_le (join_le a b c d) = [a, b, c, d]"
  unfolding join_le_def store_le_def
  apply simp
  apply (intro conjI; rule bit_word_eqI)
  apply (auto simp: bit_simps dest: bit_imp_le_length)
  done

lemma mask_FF: "(0xFF :: word32) = mask 8"
  by (simp add: mask_eq_exp_minus_1)

lemma mask_FF00: "(0xFF00 :: word32) = push_bit 8 (mask 8)"
  by (simp add: mask_eq_exp_minus_1 push_bit_eq_mult)

lemma bswap32_join:
  "bswap32 w = join_le (ucast (drop_bit 24 w)) (ucast (drop_bit 16 w)) (ucast (drop_bit 8 w)) (ucast w)"
  unfolding join_le_def bswap32_def mask_FF mask_FF00
  apply (rule bit_word_eqI)
  apply (simp add: bit_simps)
  apply (auto simp: not_le not_less dest: bit_imp_le_length)
  done

lemma store_le_bswap32: "store_le (bswap32 w) = rev (store_le w)"
  by (simp add: bswap32_join store_join_le) (simp add: store_le_def)

lemma load_store_le: "load_le (store_le w) = w"
  by (simp add: store_le_def join_store_le)

lemma length_store_le: "length (store_le w) = 4"
  by (simp add: store_le_def)

lemma store_le_inj: "store_le v = store_le w \<Longrightarrow> v = w"
  by (metis load_store_le)

lemma bswap32_bswap32: "bswap32 (bswap32 w) = w"
  by (rule store_le_inj) (simp add: store_le_bswap32)

lemma load_store_word: "load_word h (store_word h w) = w"
  by (cases h) (simp_all add: load_word_def store_word_def load_store_le)

lemma length_store_word: "length (store_word h w) = 4"
  by (cases h) (simp_all add: store_word_def length_store_le)

lemma length_write_swapped: "length (write_swapped h x) = 4"
  by (simp add: write_swapped_def length_store_word)

lemma sint_word_of_int_range:
  "in_int_range x \<Longrightarrow> sint (word_of_int x :: word32) = x"
  by (simp add: in_int_range_def int_min_def int_max_def sint_sbintrunc' signed_take_bit_int_eq_self)

lemma read_write_swapped:
  "in_int_range x \<Longrightarrow> read_swapped h (write_swapped h x) = x"
  by (simp add: read_swapped_def write_swapped_def load_store_word bswap32_bswap32
      sint_word_of_int_range)

lemma read_write_swapped_unsigned:
  "read_swapped_unsigned h (write_swapped h x) = as_unsigned x"
  by (simp add: read_swapped_unsigned_def write_swapped_def load_store_word bswap32_bswap32
      as_unsigned_def uint_word_of_int)

lemma as_unsigned_nonneg: "0 \<le> x \<Longrightarrow> in_int_range x \<Longrightarrow> as_unsigned x = x"
  by (simp add: as_unsigned_def in_int_range_def int_max_def)


lemma in_int_range_sint: "in_int_range (sint (w :: word32))"
  using sint_ge [of w] sint_lt [of w] by (simp add: in_int_range_def int_min_def int_max_def)


section \<open>The layout of the graph file\<close>

lemma fwrite_at_end: "length file \<le> pos \<Longrightarrow>
  fwrite_at pos bs file = file @ replicate (pos - length file) 0 @ bs"
  by (simp add: fwrite_at_def)

lemma edge_bytes_Cons:
  "edge_bytes h ((u, v) # es) = write_swapped h u @ write_swapped h v @ edge_bytes h es"
  by (simp add: edge_bytes_def)

lemma edge_bytes_Nil: "edge_bytes h [] = []"
  by (simp add: edge_bytes_def)

lemma length_edge_bytes: "length (edge_bytes h es) = 8 * length es"
  by (induction es) (auto simp: edge_bytes_def length_write_swapped)

lemma write_edges_append:
  "length fl \<le> pos \<Longrightarrow> es \<noteq> [] \<Longrightarrow>
   write_edges h es pos fl = fl @ replicate (pos - length fl) 0 @ edge_bytes h es"
proof (induction es arbitrary: pos fl)
  case Nil
  then show ?case by simp
next
  case (Cons e es)
  obtain u v where e: "e = (u, v)" by (cases e)
  let ?file = "fwrite_at pos (write_swapped h u @ write_swapped h v) fl"
  have f: "?file = fl @ replicate (pos - length fl) 0 @ write_swapped h u @ write_swapped h v"
    using Cons.prems by (simp add: fwrite_at_end)
  have len: "length ?file = pos + 8"
    using Cons.prems by (simp add: f length_write_swapped)
  show ?case
  proof (cases "es = []")
    case True
    then show ?thesis by (simp add: e f edge_bytes_def)
  next
    case False
    have "write_edges h es (pos + 8) ?file = ?file @ replicate (pos + 8 - length ?file) 0 @ edge_bytes h es"
      by (rule Cons.IH) (simp_all add: len False)
    then show ?thesis by (simp add: e len edge_bytes_Cons) (simp add: f)
  qed
qed

lemma write_graph_bytes:
  "write_graph h (n, es) =
     write_swapped h n @ write_swapped h (int (length es)) @ edge_bytes h es"
proof (cases "es = []")
  case True
  then show ?thesis by (simp add: write_graph_def fwrite_at_def edge_bytes_def)
next
  case False
  then have "write_edges h es 8 [] = replicate 8 0 @ edge_bytes h es"
    using write_edges_append [of "[]" 8 es h] by simp
  then show ?thesis
    by (simp add: write_graph_def fwrite_at_def length_write_swapped)
qed

lemma write_swapped_cases:
  obtains b0 b1 b2 b3 where "write_swapped h x = [b0, b1, b2, b3]"
  by (cases h) (simp_all add: write_swapped_def store_word_def store_le_def)

lemma read_records_edge_bytes:
  "edges_in_range es \<Longrightarrow> read_records (read_swapped h) (edge_bytes h es @ tl8) = es @ read_records (read_swapped h) tl8"
proof (induction es)
  case Nil
  then show ?case by (simp add: edge_bytes_def)
next
  case (Cons e es)
  obtain u v where e: "e = (u, v)" by (cases e)
  obtain a0 a1 a2 a3 where a: "write_swapped h u = [a0, a1, a2, a3]"
    by (rule write_swapped_cases)
  obtain c0 c1 c2 c3 where c: "write_swapped h v = [c0, c1, c2, c3]"
    by (rule write_swapped_cases)
  have ru: "read_swapped h [a0, a1, a2, a3] = u"
    using Cons.prems read_write_swapped [of u h] by (simp add: e a edges_in_range_def)
  have rv: "read_swapped h [c0, c1, c2, c3] = v"
    using Cons.prems read_write_swapped [of v h] by (simp add: e c edges_in_range_def)
  from Cons show ?case
    by (simp add: e edge_bytes_Cons a c ru rv edges_in_range_def)
qed


section \<open>The forced node count of clustering.cpp\<close>








section \<open>What a run of builder.cpp computes\<close>

lemma atoi_Inr_range: "atoi s = Inr v \<Longrightarrow> in_int_range v"
  by (auto simp: atoi_def Let_def split: if_splits)

lemma atoi_strtok_Inr_range: "atoi_strtok item = Inr v \<Longrightarrow> in_int_range v"
  by (auto simp: atoi_strtok_def atoi_Inr_range split: list.splits)

lemma addrs_of_Nil: "addrs_of [] = []"
  by (simp add: addrs_of_def)

lemma addrs_of_Cons_Inr: "atoi_strtok item = Inr a \<Longrightarrow> addrs_of (item # items) = a # addrs_of items"
  by (simp add: addrs_of_def)

lemma addrs_of_in_range: "list_all in_int_range (addrs_of items)"
  by (induction items) (auto simp: addrs_of_def atoi_strtok_Inr_range split: sum.splits)

lemma ge_update: "(if (a::int) \<ge> m then a else m) = max a m"
  by (simp add: max_def)

lemma max_of_Nil: "max_of m [] = m"
  by (simp add: max_of_def)

lemma max_of_Cons: "max_of m (x # xs) = max_of (max x m) xs"
  by (simp add: max_of_def)

lemma max_of_append: "max_of m (xs @ ys) = max_of (max_of m xs) ys"
  by (simp add: max_of_def)

lemma max_of_Max: "max_of m xs = Max (insert m (set xs))"
proof (induction xs arbitrary: m)
  case Nil
  then show ?case by (simp add: max_of_def)
next
  case (Cons x xs)
  have "Max (insert (max x m) (set xs)) = Max (insert m (insert x (set xs)))"
    by (cases "set xs = {}") (simp_all add: max.assoc max.commute max.left_commute)
  with Cons show ?case by (simp add: max_of_Cons)
qed

lemma max_of_filter:
  "f \<le> m \<Longrightarrow> max_of m (filter (\<lambda>a. a \<noteq> f) xs) = max_of m xs"
  by (induction xs arbitrary: m) (auto simp: max_of_Cons max_def)

lemma inputs_loop_Inr:
  "inputs_loop f items (m, es) = Inr st' \<Longrightarrow>
   length (addrs_of items) = length items \<and>
   st' = (max_of m (filter (\<lambda>a. a \<noteq> f) (addrs_of items)),
          es @ map (minmax f) (filter (\<lambda>a. a \<noteq> f) (addrs_of items)))"
proof (induction items arbitrary: m es)
  case Nil
  then show ?case by (simp add: addrs_of_Nil max_of_Nil)
next
  case (Cons item items)
  from Cons.prems obtain a where a: "atoi_strtok item = Inr a"
    by (cases "atoi_strtok item") auto
  show ?case
  proof (cases "a = f")
    case True
    with Cons.prems a have "inputs_loop f items (m, es) = Inr st'" by simp
    from Cons.IH [OF this] show ?thesis
      by (simp add: addrs_of_Cons_Inr [OF a] True)
  next
    case False
    with Cons.prems a have "inputs_loop f items (max a m, es @ [minmax f a]) = Inr st'"
      by (simp add: ge_update)
    from Cons.IH [OF this] show ?thesis
      by (simp add: addrs_of_Cons_Inr [OF a] False max_of_Cons)
  qed
qed

lemma process_inputs_Inr:
  assumes "process_inputs tok (m, es) = Inr st'"
  shows "item_addresses tok \<noteq> [] \<and>
     st' = (max_of m (item_addresses tok), es @ star (item_addresses tok))"
proof -
  from assms obtain item rest where t: "strtok_tokens CHR '';'' tok = item # rest"
    by (cases "strtok_tokens CHR '';'' tok") (auto simp: process_inputs_def)
  from assms t obtain f where f: "atoi_strtok item = Inr f"
    by (cases "atoi_strtok item") (auto simp: process_inputs_def)
  from assms t f have l: "inputs_loop f rest (max f m, es) = Inr st'"
    by (auto simp: process_inputs_def max_def split: if_splits)
  have ia: "item_addresses tok = f # addrs_of rest"
    by (simp add: item_addresses_def t addrs_of_Cons_Inr [OF f])
  from inputs_loop_Inr [OF l] show ?thesis
    by (simp add: ia star_def max_of_Cons max_of_filter)
qed

lemma outputs_loop_Inr:
  "outputs_loop items (m, es) = Inr st' \<Longrightarrow> st' = (max_of m (addrs_of items), es)"
proof (induction items arbitrary: m)
  case Nil
  then show ?case by (simp add: addrs_of_Nil max_of_Nil)
next
  case (Cons item items)
  from Cons.prems obtain a where a: "atoi_strtok item = Inr a"
    by (cases "atoi_strtok item") auto
  with Cons.prems have "outputs_loop items (max a m, es) = Inr st'"
    by (simp add: ge_update)
  from Cons.IH [OF this] show ?case
    by (simp add: addrs_of_Cons_Inr [OF a] max_of_Cons)
qed

lemma process_outputs_Inr:
  "process_outputs tok (m, es) = Inr st' \<Longrightarrow> st' = (max_of m (item_addresses tok), es)"
  by (simp add: process_outputs_def item_addresses_def outputs_loop_Inr)

lemma item_addresses_Nil: "item_addresses [] = []"
  by (simp add: item_addresses_def strtok_tokens_def addrs_of_def)

lemma line_loop_late: "2 < k \<Longrightarrow> line_loop ts k st = Inr st"
  by (induction ts arbitrary: k) auto

lemma process_line_unfold:
  "process_line l st =
     (case (if line_token 1 l \<noteq> [] then process_inputs (line_token 1 l) st else Inr st) of
        Inl e \<Rightarrow> Inl e
      | Inr st1 \<Rightarrow>
          if line_token 2 l \<noteq> [] then process_outputs (line_token 2 l) st1 else Inr st1)"
proof -
  obtain ts where ts: "strsep_tokens CHR '':'' (c_str l) = ts" by simp
  show ?thesis
  proof (cases ts)
    case Nil
    then show ?thesis by (simp add: process_line_def line_token_def ts)
  next
    case (Cons t0 ts1)
    note c0 = this
    show ?thesis
    proof (cases ts1)
      case Nil
      then show ?thesis by (simp add: process_line_def line_token_def ts c0)
    next
      case (Cons t1 ts2)
      note c1 = this
      show ?thesis
      proof (cases ts2)
        case Nil
        then show ?thesis
          by (simp add: process_line_def line_token_def ts c0 c1 split: sum.splits)
      next
        case (Cons t2 ts3)
        have "line_loop ts3 (Suc (Suc (Suc 0))) s = Inr s" for s
          by (rule line_loop_late) simp
        then show ?thesis
          by (simp add: process_line_def line_token_def ts c0 c1 Cons numeral_2_eq_2
              split: sum.splits)
      qed
    qed
  qed
qed

lemma process_line_Inr:
  assumes "process_line l (m, es) = Inr st'"
  shows "st' = (max_of m (input_addresses l @ output_addresses l), es @ star (input_addresses l))"
proof -
  let ?i = "line_token 1 l" and ?o = "line_token 2 l"
  from assms obtain st1 where
    1: "(if ?i \<noteq> [] then process_inputs ?i (m, es) else Inr (m, es)) = Inr st1" and
    2: "(if ?o \<noteq> [] then process_outputs ?o st1 else Inr st1) = Inr st'"
    unfolding process_line_unfold by (auto split: sum.splits)
  have s1: "st1 = (max_of m (input_addresses l), es @ star (input_addresses l))"
  proof (cases "?i = []")
    case True
    with 1 show ?thesis
      by (simp add: input_addresses_def item_addresses_Nil max_of_Nil star_def)
  next
    case False
    with 1 process_inputs_Inr [of ?i m es st1] show ?thesis
      by (simp add: input_addresses_def)
  qed
  show ?thesis
  proof (cases "?o = []")
    case True
    with 2 s1 show ?thesis
      by (simp add: output_addresses_def item_addresses_Nil max_of_append max_of_Nil)
  next
    case False
    with 2 s1 process_outputs_Inr [of ?o "fst st1" "snd st1" st'] show ?thesis
      by (simp add: output_addresses_def max_of_append)
  qed
qed

lemma read_lines_Inr:
  "read_lines ls (m, es) = Inr st' \<Longrightarrow>
   st' = (max_of m (lines_addresses ls), es @ lines_edges ls)"
proof (induction ls arbitrary: m es)
  case Nil
  then show ?case by (simp add: lines_addresses_def lines_edges_def max_of_Nil)
next
  case (Cons l ls)
  from Cons.prems obtain st1 where 1: "process_line l (m, es) = Inr st1"
    and 2: "read_lines ls st1 = Inr st'"
    by (auto split: sum.splits)
  from process_line_Inr [OF 1] 2 Cons.IH [of "fst st1" "snd st1"]
  show ?case
    by (simp add: lines_addresses_def lines_edges_def max_of_append)
qed


lemma builder_graph_with_Inr:
  assumes "builder_graph_with srt input = Inr (n, es)"
  shows "n = max_of 0 (stream_addresses input) + 1 \<and>
         es = remdups_adj (srt (lines_edges (getlines input))) \<and>
         in_int_range n \<and> in_int_range (int (length (lines_edges (getlines input))))"
proof -
  from assms obtain m es0 where r: "read_lines (getlines input) (0, []) = Inr (m, es0)"
    by (auto simp: builder_graph_with_def split: sum.splits)
  from read_lines_Inr [OF r] assms r show ?thesis
    by (auto simp: builder_graph_with_def stream_addresses_def split: if_splits)
qed


lemma minmax_in_range: "in_int_range a \<Longrightarrow> in_int_range b \<Longrightarrow>
  (case minmax a b of (u, v) \<Rightarrow> in_int_range u \<and> in_int_range v)"
  by (simp add: minmax_def)

lemma item_addresses_in_range: "list_all in_int_range (item_addresses tok)"
  by (simp add: item_addresses_def addrs_of_in_range)

lemma star_in_range: "list_all in_int_range as \<Longrightarrow> edges_in_range (star as)"
  by (cases as) (auto simp: star_def edges_in_range_def list_all_iff minmax_def)

lemma lines_edges_in_range: "edges_in_range (lines_edges ls)"
proof -
  have "edges_in_range (star (input_addresses l))" for l
    by (rule star_in_range) (simp add: input_addresses_def item_addresses_in_range)
  then show ?thesis
    by (induction ls) (auto simp: lines_edges_def edges_in_range_def)
qed

lemma edges_in_range_set: "set es = set es' \<Longrightarrow> edges_in_range es = edges_in_range es'"
  by (simp add: edges_in_range_def list_all_iff)

lemma builder_graph_in_range:
  assumes "builder_graph input = Inr (n, es)"
  shows "in_int_range n \<and> edges_in_range es \<and> in_int_range (int (length es))"
proof -
  let ?es0 = "lines_edges (getlines input)"
  from assms have b: "builder_graph_with sort input = Inr (n, es)"
    by (simp add: builder_graph_def)
  note c = builder_graph_with_Inr [OF b]
  have "set es = set ?es0" using c by simp
  then have 1: "edges_in_range es"
    using lines_edges_in_range [of "getlines input"] edges_in_range_set by blast
  have "length es \<le> length ?es0"
    using c remdups_adj_length [of "sort ?es0"] by simp
  with c have 2: "in_int_range (int (length es))"
    by (simp add: in_int_range_def int_min_def)
  from c 1 2 show ?thesis by blast
qed

section \<open>Decoding the file that builder.cpp writes\<close>

lemma flat_edges_Cons: "flat_edges ((u, v) # es) = u # v # flat_edges es"
  by (simp add: flat_edges_def)

lemma take_update2:
  "Suc i < length vec \<Longrightarrow> take (Suc (Suc i)) (vec[i := u, Suc i := v]) = take i vec @ [u, v]"
  by (simp add: take_Suc_conv_app_nth)

lemma read_edge_loop_edge_bytes:
  "i + 2 * length es \<le> length vec \<Longrightarrow>
   read_edge_loop h buf (edge_bytes h es) i vec
     = Inr (take i vec @ map as_unsigned (flat_edges es) @ drop (i + 2 * length es) vec)"
proof (induction es arbitrary: buf i vec)
  case Nil
  show ?case
    by (subst read_edge_loop.simps) (simp add: fread2_def edge_bytes_def flat_edges_def)
next
  case (Cons e es)
  obtain u v where e: "e = (u, v)" by (cases e)
  obtain a0 a1 a2 a3 where a: "write_swapped h u = [a0, a1, a2, a3]"
    by (rule write_swapped_cases)
  obtain c0 c1 c2 c3 where c: "write_swapped h v = [c0, c1, c2, c3]"
    by (rule write_swapped_cases)
  have ru: "read_swapped_unsigned h [a0, a1, a2, a3] = as_unsigned u"
    using read_write_swapped_unsigned [of h u] by (simp add: a)
  have rv: "read_swapped_unsigned h [c0, c1, c2, c3] = as_unsigned v"
    using read_write_swapped_unsigned [of h v] by (simp add: c)
  let ?vec = "vec[i := as_unsigned u, Suc i := as_unsigned v]"
  have i: "Suc i < length vec" using Cons.prems by simp
  have ih: "read_edge_loop h buf' (edge_bytes h es) (Suc (Suc i)) ?vec
      = Inr (take (Suc (Suc i)) ?vec @ map as_unsigned (flat_edges es)
             @ drop (Suc (Suc i) + 2 * length es) ?vec)" for buf'
    using Cons.prems by (intro Cons.IH) simp
  have d: "drop (Suc (Suc i) + 2 * length es) ?vec = drop (i + 2 * length (e # es)) vec"
    by simp
  show ?case
    apply (subst read_edge_loop.simps)
    apply (simp add: fread2_def e edge_bytes_Cons a c Let_def ru rv i ih)
    apply (simp add: take_update2 [OF i] flat_edges_Cons)
    done
qed

lemma as_unsigned_edges:
  "edges_in_range es \<Longrightarrow> list_all (\<lambda>(u, v). 0 \<le> u \<and> 0 \<le> v) es \<Longrightarrow>
   map as_unsigned (flat_edges es) = flat_edges es"
  by (induction es) (auto simp: flat_edges_def edges_in_range_def as_unsigned_nonneg)

lemma write_graph_decode:
  assumes "in_int_range n" "edges_in_range es" "in_int_range (int (length es))"
  shows "length (write_graph h (n, es)) = 8 + 8 * length es"
    and "read_swapped h (take 4 (write_graph h (n, es))) = n"
    and "read_swapped h (take 4 (drop 4 (write_graph h (n, es)))) = int (length es)"
    and "read_records (read_swapped h) (drop 8 (write_graph h (n, es))) = es"
    and "read_edge_loop h (take 8 (write_graph h (n, es))) (drop 8 (write_graph h (n, es))) 0
           (replicate (2 * length es) 0) = Inr (map as_unsigned (flat_edges es))"
proof -
  note b = write_graph_bytes [of h n es]
  show "length (write_graph h (n, es)) = 8 + 8 * length es"
    by (simp add: b length_write_swapped length_edge_bytes)
  show "read_swapped h (take 4 (write_graph h (n, es))) = n"
    using assms by (simp add: b length_write_swapped read_write_swapped)
  show "read_swapped h (take 4 (drop 4 (write_graph h (n, es)))) = int (length es)"
    using assms by (simp add: b length_write_swapped read_write_swapped)
  have d: "drop 8 (write_graph h (n, es)) = edge_bytes h es"
    by (simp add: b length_write_swapped)
  show "read_records (read_swapped h) (drop 8 (write_graph h (n, es))) = es"
    using read_records_edge_bytes [OF assms(2), of h "[]"] by (simp add: d)
  show "read_edge_loop h (take 8 (write_graph h (n, es))) (drop 8 (write_graph h (n, es))) 0
           (replicate (2 * length es) 0) = Inr (map as_unsigned (flat_edges es))"
    using read_edge_loop_edge_bytes [of 0 es "replicate (2 * length es) 0" h]
    by (simp add: d)
qed

text \<open>
  Claim C8, amended. builder.cpp writes every integer of the file byte-swapped with respect
  to the host's order, and analyzer.cpp (0.2) and clustering.cpp swap every integer back
  after reading it. On a host of the same byte order the file of a run of the builder has
  8 + 8 M bytes, and the expressions by which the two readers decode the node count, the edge
  count and the edge records (the record loop of analyzer.cpp, the vector loop of
  clustering.cpp) yield the node count, the number of edges and the edge list that the
  builder wrote; the vector of clustering.cpp holds the node ids as unsigned values, which
  are the ids that were written when none of them is negative.
\<close>

theorem graph_file_round_trip:
  assumes "builder_main h input = Inr fl" and "builder_graph input = Inr (n, es)"
  shows "length fl = 8 + 8 * length es \<and>
         read_swapped h (take 4 fl) = n \<and>
         read_swapped h (take 4 (drop 4 fl)) = int (length es) \<and>
         read_records (read_swapped h) (drop 8 fl) = es \<and>
         read_edge_loop h (take 8 fl) (drop 8 fl) 0 (replicate (2 * length es) 0)
           = Inr (map as_unsigned (flat_edges es)) \<and>
         (list_all (\<lambda>(u, v). 0 \<le> u \<and> 0 \<le> v) es \<longrightarrow>
            map as_unsigned (flat_edges es) = flat_edges es)"
proof -
  from assms have f: "fl = write_graph h (n, es)"
    by (auto simp: builder_main_def builder_main_with_def builder_graph_def split: sum.splits)
  from builder_graph_in_range [OF assms(2)]
  have r: "in_int_range n" "edges_in_range es" "in_int_range (int (length es))"
    by simp_all
  show ?thesis
    using write_graph_decode [OF r, of h] as_unsigned_edges [OF r(2)] by (simp add: f)
qed

theorem graph_file_round_trip_witness:
  "builder_main Little_Endian ''t:0;1:'' = Inr [0, 0, 0, 2, 0, 0, 0, 1, 0, 0, 0, 0, 0, 0, 0, 1] \<and>
   builder_graph ''t:0;1:'' = Inr (2, [(0, 1)]) \<and>
   length ([0, 0, 0, 2, 0, 0, 0, 1, 0, 0, 0, 0, 0, 0, 0, 1] :: byte list)
     = 8 + 8 * length ([(0, 1)] :: (int \<times> int) list) \<and>
   read_swapped Little_Endian (take 4 [0, 0, 0, 2, 0, 0, 0, 1, 0, 0, 0, 0, 0, 0, 0, 1]) = 2 \<and>
   read_swapped Little_Endian (take 4 (drop 4 [0, 0, 0, 2, 0, 0, 0, 1, 0, 0, 0, 0, 0, 0, 0, 1]))
     = int (length ([(0, 1)] :: (int \<times> int) list)) \<and>
   read_records (read_swapped Little_Endian)
     (drop 8 [0, 0, 0, 2, 0, 0, 0, 1, 0, 0, 0, 0, 0, 0, 0, 1]) = [(0, 1)] \<and>
   read_edge_loop Little_Endian (take 8 [0, 0, 0, 2, 0, 0, 0, 1, 0, 0, 0, 0, 0, 0, 0, 1])
     (drop 8 [0, 0, 0, 2, 0, 0, 0, 1, 0, 0, 0, 0, 0, 0, 0, 1]) 0
     (replicate (2 * length ([(0, 1)] :: (int \<times> int) list)) 0)
     = Inr (map as_unsigned (flat_edges [(0, 1)])) \<and>
   map as_unsigned (flat_edges [(0, 1)]) = flat_edges [(0, 1)]"
proof -
  have b: "builder_main Little_Endian ''t:0;1:''
      = Inr [0, 0, 0, 2, 0, 0, 0, 1, 0, 0, 0, 0, 0, 0, 0, 1]"
    by code_simp
  have g: "builder_graph ''t:0;1:'' = Inr (2, [(0, 1)])"
    by code_simp
  have p: "list_all (\<lambda>(u, v). 0 \<le> u \<and> 0 \<le> v) ([(0, 1)] :: (int \<times> int) list)"
    by simp
  from graph_file_round_trip [OF b g] b g p show ?thesis
    by blast
qed

text \<open>
  The claim C8 as it is written fails for the analyzer of version 0.1, which takes the
  integers as they lie in memory: on a little-endian host it reads the file that builder.cpp
  writes for the graph with 2 nodes and the edge (0, 1) as a graph with 33554432 nodes and
  the edge (0, 16777216).
\<close>

theorem analyzer01_byte_order_counterexample:
  "builder_graph ''t:0;1:'' = Inr (2, [(0, 1)]) \<and>
   builder_main Little_Endian ''t:0;1:'' = Inr [0, 0, 0, 2, 0, 0, 0, 1, 0, 0, 0, 0, 0, 0, 0, 1] \<and>
   analyzer01_read_graph Little_Endian [0, 0, 0, 2, 0, 0, 0, 1, 0, 0, 0, 0, 0, 0, 0, 1]
     = Inr \<lparr>num_nodes = 33554432, edge_list = [(0, 16777216)]\<rparr>"
  by code_simp

section \<open>Determinism of builder.cpp\<close>




section \<open>What a run of the builder of version 0.2 computes\<close>

lemma distinct_remdups_adj_sorted: "sorted xs \<Longrightarrow> distinct (remdups_adj xs)"
  by (induction xs rule: remdups_adj.induct) auto

lemma numbered_snd_nonneg: "numbered nodes \<Longrightarrow> (a, i) \<in> set nodes \<Longrightarrow> 0 \<le> i \<and> i < int (length nodes)"
proof -
  assume n: "numbered nodes" and m: "(a, i) \<in> set nodes"
  from m have "i \<in> set (map snd nodes)" by force
  with n have "i \<in> set (map int [0..<length nodes])" by (simp add: numbered_def)
  then show ?thesis by auto
qed

lemma contains_node_absent:
  assumes "numbered nodes"
  shows "contains_node nodes a = - 1 \<longleftrightarrow> a \<notin> set (map fst nodes)"
proof (cases "map_of nodes a")
  case None
  have "contains_node nodes a = - 1"
    by (simp add: contains_node_def None)
  moreover have "a \<notin> set (map fst nodes)"
    using None by (simp add: map_of_eq_None_iff)
  ultimately show ?thesis by simp
next
  case (Some i)
  then have "(a, i) \<in> set nodes" by (rule map_of_SomeD)
  with numbered_snd_nonneg [OF assms this] Some show ?thesis
    by (force simp: contains_node_def)
qed

lemma contains_node_present:
  assumes "numbered nodes" "a \<in> set (map fst nodes)"
  shows "(a, contains_node nodes a) \<in> set nodes"
proof -
  from assms(2) obtain i where "map_of nodes a = Some i"
    by (metis map_of_eq_None_iff not_None_eq set_map)
  then show ?thesis by (simp add: contains_node_def map_of_SomeD)
qed

lemma node_store_new: "a \<notin> set (map fst nodes) \<Longrightarrow> node_store a i nodes = nodes @ [(a, i)]"
  by (induction nodes) auto

lemma numbered_snoc:
  "numbered nodes \<Longrightarrow> a \<notin> set (map fst nodes) \<Longrightarrow> numbered (nodes @ [(a, int (length nodes))])"
  by (simp add: numbered_def)

lemma edges_ascend_mono:
  "edges_ascend nodes es \<Longrightarrow> set nodes \<subseteq> set nodes' \<Longrightarrow> edges_ascend nodes' es"
  unfolding edges_ascend_def by blast

lemma set_insert_set: "set (set_insert x xs) = insert x (set xs)"
  by (auto simp: set_insert_def set_insort_key)

lemma set_insert_sorted: "sorted xs \<Longrightarrow> sorted (set_insert x xs)"
  by (simp add: set_insert_def sorted_insort)

lemma set_insert_distinct: "distinct xs \<Longrightarrow> distinct (set_insert x xs)"
  by (simp add: set_insert_def distinct_insort)

lemma edges_ascend_insert:
  "edges_ascend nodes es \<Longrightarrow> a < b \<Longrightarrow> (a, u) \<in> set nodes \<Longrightarrow> (b, v) \<in> set nodes \<Longrightarrow>
   edges_ascend nodes (set_insert (u, v) es)"
  unfolding edges_ascend_def set_insert_set by auto

lemma add_key_new: "a \<notin> set ks \<Longrightarrow> add_key a ks = ks @ [a]"
  by (simp add: add_key_def)

lemma add_key_old: "a \<in> set ks \<Longrightarrow> add_key a ks = ks"
  by (simp add: add_key_def)

lemma keys_after_Cons: "keys_after (a # as) ks = keys_after as (add_key a ks)"
  by (simp add: keys_after_def)

lemma keys_after_Nil: "keys_after [] ks = ks"
  by (simp add: keys_after_def)

lemma keys_after_append: "keys_after (as @ bs) ks = keys_after bs (keys_after as ks)"
  by (simp add: keys_after_def)

lemma path_loop_inv:
  "inv02 (nodes, es, c) \<Longrightarrow> sorted as \<Longrightarrow> distinct as \<Longrightarrow> prev_ok nodes prev_id as \<Longrightarrow>
   path_loop as prev_id (nodes, es, c) = Inr (nodes', es', c') \<Longrightarrow>
   inv02 (nodes', es', c') \<and> map fst nodes' = keys_after as (map fst nodes) \<and>
   (\<exists>ext. nodes' = nodes @ ext)"
proof (induction as arbitrary: nodes es c prev_id)
  case Nil
  then show ?case by (simp add: keys_after_Nil)
next
  case (Cons a as)
  from Cons.prems(1) have num: "numbered nodes" and c: "c = int (length nodes)"
    and srt: "sorted es" and dst: "distinct es" and asc: "edges_ascend nodes es"
    by (simp_all add: inv02_def)
  have sa: "sorted as" "distinct as" using Cons.prems(2,3) by simp_all
  have lt: "\<forall>b \<in> set as. a < b" using Cons.prems(2,3) by (auto simp: less_le)
  show ?case
  proof (cases "a \<in> set (map fst nodes)")
    case False
    then have cn: "contains_node nodes a = - 1"
      using contains_node_absent [OF num] by simp
    let ?nodes = "nodes @ [(a, c)]"
    let ?es = "if prev_id \<noteq> - 1 then set_insert (prev_id, c) es else es"
    from Cons.prems(5) cn False have r: "in_int_range (c + 1)"
      and l: "path_loop as c (?nodes, ?es, c + 1) = Inr (nodes', es', c')"
      by (auto simp: node_store_new split: if_splits)
    have num': "numbered ?nodes" using numbered_snoc [OF num] False c by simp
    have asc0: "edges_ascend ?nodes es" by (rule edges_ascend_mono [OF asc]) auto
    have asc': "edges_ascend ?nodes ?es"
    proof (cases "prev_id = - 1")
      case True
      then show ?thesis using asc0 by simp
    next
      case False
      with Cons.prems(4) obtain p where "(p, prev_id) \<in> set nodes" "p < a"
        by (auto simp: prev_ok_def)
      then have "edges_ascend ?nodes (set_insert (prev_id, c) es)"
        by (intro edges_ascend_insert [OF asc0, of p a]) auto
      with False show ?thesis by simp
    qed
    have inv': "inv02 (?nodes, ?es, c + 1)"
      using num' c srt dst asc'
      by (simp add: inv02_def set_insert_sorted set_insert_distinct)
    have pk: "prev_ok ?nodes c as"
      unfolding prev_ok_def using lt by (intro disjI2 exI [of _ a]) simp
    from Cons.IH [OF inv' sa pk l] False show ?thesis
      by (auto simp: keys_after_Cons add_key_new)
  next
    case True
    let ?id = "contains_node nodes a"
    have mem: "(a, ?id) \<in> set nodes" by (rule contains_node_present [OF num True])
    have cn: "?id \<noteq> - 1" using contains_node_absent [OF num] True by simp
    let ?es = "if prev_id \<noteq> - 1 then set_insert (prev_id, ?id) es else es"
    from Cons.prems(5) cn have l: "path_loop as ?id (nodes, ?es, c) = Inr (nodes', es', c')"
      by (simp split: if_splits)
    have asc': "edges_ascend nodes ?es"
    proof (cases "prev_id = - 1")
      case True
      then show ?thesis using asc by simp
    next
      case False
      with Cons.prems(4) obtain p where "(p, prev_id) \<in> set nodes" "p < a"
        by (auto simp: prev_ok_def)
      then have "edges_ascend nodes (set_insert (prev_id, ?id) es)"
        using mem by (intro edges_ascend_insert [OF asc, of p a]) auto
      with False show ?thesis by simp
    qed
    have inv': "inv02 (nodes, ?es, c)"
      using num c srt dst asc'
      by (simp add: inv02_def set_insert_sorted set_insert_distinct)
    have pk: "prev_ok nodes ?id as"
      unfolding prev_ok_def using lt mem by (intro disjI2 exI [of _ a]) simp
    from Cons.IH [OF inv' sa pk l] True show ?thesis
      by (auto simp: keys_after_Cons add_key_old)
  qed
qed


lemma outputs_loop02_inv:
  "inv02 (nodes, es, c) \<Longrightarrow> outputs_loop02 items (nodes, es, c) = Inr (nodes', es', c') \<Longrightarrow>
   inv02 (nodes', es', c') \<and> map fst nodes' = keys_after (addrs_of items) (map fst nodes) \<and>
   (\<exists>ext. nodes' = nodes @ ext)"
proof (induction items arbitrary: nodes c)
  case Nil
  then show ?case by (simp add: keys_after_Nil addrs_of_Nil)
next
  case (Cons item items)
  from Cons.prems(1) have num: "numbered nodes" and c: "c = int (length nodes)"
    and srt: "sorted es" and dst: "distinct es" and asc: "edges_ascend nodes es"
    by (simp_all add: inv02_def)
  from Cons.prems(2) obtain a where a: "atoi_strtok item = Inr a"
    by (cases "atoi_strtok item") auto
  show ?case
  proof (cases "a \<in> set (map fst nodes)")
    case False
    then have cn: "contains_node nodes a = - 1"
      using contains_node_absent [OF num] by simp
    let ?nodes = "nodes @ [(a, c)]"
    from Cons.prems(2) a cn False
    have l: "outputs_loop02 items (?nodes, es, c + 1) = Inr (nodes', es', c')"
      by (auto simp: node_store_new split: if_splits)
    have num': "numbered ?nodes" using numbered_snoc [OF num] False c by simp
    have asc': "edges_ascend ?nodes es" by (rule edges_ascend_mono [OF asc]) auto
    have inv': "inv02 (?nodes, es, c + 1)"
      using num' c srt dst asc' by (simp add: inv02_def)
    from Cons.IH [OF inv' l] False show ?thesis
      by (auto simp: addrs_of_Cons_Inr [OF a] keys_after_Cons add_key_new)
  next
    case True
    then have cn: "contains_node nodes a \<noteq> - 1"
      using contains_node_absent [OF num] by simp
    from Cons.prems(2) a cn
    have l: "outputs_loop02 items (nodes, es, c) = Inr (nodes', es', c')"
      by (simp split: if_splits)
    from Cons.IH [OF Cons.prems(1) l] True show ?thesis
      by (auto simp: addrs_of_Cons_Inr [OF a] keys_after_Cons add_key_old)
  qed
qed

lemma collect_addresses_Inr:
  "collect_addresses items s = Inr s' \<Longrightarrow> sorted s \<Longrightarrow> distinct s \<Longrightarrow>
   sorted s' \<and> distinct s' \<and> set s' = set s \<union> set (addrs_of items)"
proof (induction items arbitrary: s)
  case Nil
  then show ?case by (simp add: addrs_of_Nil)
next
  case (Cons item items)
  from Cons.prems(1) obtain a where a: "atoi_strtok item = Inr a"
    by (cases "atoi_strtok item") auto
  with Cons.prems(1) have l: "collect_addresses items (set_insert a s) = Inr s'"
    by simp
  from Cons.IH [OF l] Cons.prems(2,3) show ?case
    by (simp add: set_insert_sorted set_insert_distinct set_insert_set addrs_of_Cons_Inr [OF a])
qed

lemma process_inputs02_inv:
  assumes "inv02 (nodes, es, c)" "process_inputs02 tok (nodes, es, c) = Inr (nodes', es', c')"
  shows "inv02 (nodes', es', c') \<and>
     map fst nodes' = keys_after (sorted_list_of_set (set (item_addresses tok))) (map fst nodes) \<and>
     (\<exists>ext. nodes' = nodes @ ext)"
proof -
  from assms(2) obtain s where s: "collect_addresses (strtok_tokens CHR '';'' tok) [] = Inr s"
    and l: "path_loop s (- 1) (nodes, es, c) = Inr (nodes', es', c')"
    by (auto simp: process_inputs02_def split: sum.splits)
  from collect_addresses_Inr [OF s]
  have ss: "sorted s" "distinct s" "set s = set (item_addresses tok)"
    by (simp_all add: item_addresses_def)
  then have e: "s = sorted_list_of_set (set (item_addresses tok))"
    by (metis sorted_list_of_set.idem_if_sorted_distinct)
  have "prev_ok nodes (- 1) s" by (simp add: prev_ok_def)
  from path_loop_inv [OF assms(1) ss(1,2) this l] show ?thesis
    by (simp add: e)
qed

lemma process_outputs02_inv:
  assumes "inv02 (nodes, es, c)" "process_outputs02 tok (nodes, es, c) = Inr (nodes', es', c')"
  shows "inv02 (nodes', es', c') \<and>
     map fst nodes' = keys_after (item_addresses tok) (map fst nodes) \<and>
     (\<exists>ext. nodes' = nodes @ ext)"
  using outputs_loop02_inv [OF assms(1)] assms(2)
  by (simp add: process_outputs02_def item_addresses_def)

lemma line_loop02_late: "2 < k \<Longrightarrow> line_loop02 ts k st = Inr st"
  by (induction ts arbitrary: k) auto

lemma process_line02_unfold:
  "process_line02 l st =
     (case (if line_token 1 l \<noteq> [] then process_inputs02 (line_token 1 l) st else Inr st) of
        Inl e \<Rightarrow> Inl e
      | Inr st1 \<Rightarrow>
          if line_token 2 l \<noteq> [] then process_outputs02 (line_token 2 l) st1 else Inr st1)"
proof -
  obtain ts where ts: "strsep_tokens CHR '':'' (c_str l) = ts" by simp
  show ?thesis
  proof (cases ts)
    case Nil
    then show ?thesis by (simp add: process_line02_def line_token_def ts)
  next
    case (Cons t0 ts1)
    note c0 = this
    show ?thesis
    proof (cases ts1)
      case Nil
      then show ?thesis by (simp add: process_line02_def line_token_def ts c0)
    next
      case (Cons t1 ts2)
      note c1 = this
      show ?thesis
      proof (cases ts2)
        case Nil
        then show ?thesis
          by (simp add: process_line02_def line_token_def ts c0 c1 split: sum.splits)
      next
        case (Cons t2 ts3)
        have "line_loop02 ts3 (Suc (Suc (Suc 0))) s = Inr s" for s
          by (rule line_loop02_late) simp
        then show ?thesis
          by (simp add: process_line02_def line_token_def ts c0 c1 Cons numeral_2_eq_2
              split: sum.splits)
      qed
    qed
  qed
qed

lemma process_line02_inv:
  assumes "inv02 (nodes, es, c)" "process_line02 l (nodes, es, c) = Inr (nodes', es', c')"
  shows "inv02 (nodes', es', c') \<and>
     map fst nodes' = keys_after (lookup_order_lines [l]) (map fst nodes) \<and>
     (\<exists>ext. nodes' = nodes @ ext)"
proof -
  let ?i = "line_token 1 l" and ?o = "line_token 2 l"
  from assms(2) obtain n1 e1 c1 where
    1: "(if ?i \<noteq> [] then process_inputs02 ?i (nodes, es, c) else Inr (nodes, es, c)) = Inr (n1, e1, c1)" and
    2: "(if ?o \<noteq> [] then process_outputs02 ?o (n1, e1, c1) else Inr (n1, e1, c1)) = Inr (nodes', es', c')"
    unfolding process_line02_unfold by (auto split: sum.splits)
  have s1: "inv02 (n1, e1, c1) \<and>
     map fst n1 = keys_after (sorted_list_of_set (set (input_addresses l))) (map fst nodes) \<and>
     (\<exists>ext. n1 = nodes @ ext)"
  proof (cases "?i = []")
    case True
    with 1 assms(1) show ?thesis
      by (simp add: input_addresses_def item_addresses_Nil keys_after_Nil)
  next
    case False
    with 1 process_inputs02_inv [OF assms(1), of ?i n1 e1 c1] show ?thesis
      by (simp add: input_addresses_def)
  qed
  have s2: "inv02 (nodes', es', c') \<and>
     map fst nodes' = keys_after (output_addresses l) (map fst n1) \<and>
     (\<exists>ext. nodes' = n1 @ ext)"
  proof (cases "?o = []")
    case True
    with 2 s1 show ?thesis
      by (simp add: output_addresses_def item_addresses_Nil keys_after_Nil)
  next
    case False
    with 2 s1 process_outputs02_inv [of n1 e1 c1 ?o nodes' es' c'] show ?thesis
      by (simp add: output_addresses_def)
  qed
  from s1 s2 show ?thesis
    by (auto simp: lookup_order_lines_def keys_after_append)
qed

lemma lookup_order_lines_Cons:
  "lookup_order_lines (l # ls) = lookup_order_lines [l] @ lookup_order_lines ls"
  by (simp add: lookup_order_lines_def)

lemma read_lines02_inv:
  "inv02 (nodes, es, c) \<Longrightarrow> read_lines02 ls (nodes, es, c) = Inr (nodes', es', c') \<Longrightarrow>
   inv02 (nodes', es', c') \<and>
   map fst nodes' = keys_after (lookup_order_lines ls) (map fst nodes) \<and>
   (\<exists>ext. nodes' = nodes @ ext)"
proof (induction ls arbitrary: nodes es c)
  case Nil
  then show ?case by (simp add: lookup_order_lines_def keys_after_Nil)
next
  case (Cons l ls)
  from Cons.prems(2) obtain n1 e1 c1 where 1: "process_line02 l (nodes, es, c) = Inr (n1, e1, c1)"
    and 2: "read_lines02 ls (n1, e1, c1) = Inr (nodes', es', c')"
    by (auto split: sum.splits)
  note a = process_line02_inv [OF Cons.prems(1) 1]
  from a have i1: "inv02 (n1, e1, c1)" by simp
  from Cons.IH [OF i1 2] a show ?case
    by (subst lookup_order_lines_Cons) (auto simp: keys_after_append)
qed











lemma inv02_init: "inv02 ([], [], 0)"
  by (simp add: inv02_def numbered_def edges_ascend_def)



lemma star_set: "(u, v) \<in> set (star as) \<Longrightarrow> u < v \<and> u \<in> set as \<and> v \<in> set as"
  by (cases as) (auto simp: star_def minmax_def split: if_splits)

lemma lines_edges_set:
  "(u, v) \<in> set (lines_edges ls) \<Longrightarrow>
   u < v \<and> u \<in> set (lines_addresses ls) \<and> v \<in> set (lines_addresses ls)"
  by (induction ls) (auto simp: lines_edges_def lines_addresses_def dest: star_set)

lemma builder_graph_Inr:
  assumes "builder_graph input = Inr (n, es)"
  shows "n = Max (insert 0 (set (stream_addresses input))) + 1"
    and "set es = set (lines_edges (getlines input))"
    and "distinct es"
proof -
  from assms have b: "builder_graph_with sort input = Inr (n, es)"
    by (simp add: builder_graph_def)
  note c = builder_graph_with_Inr [OF b]
  from c show "n = Max (insert 0 (set (stream_addresses input))) + 1"
    by (simp add: max_of_Max)
  from c show "set es = set (lines_edges (getlines input))" by simp
  from c show "distinct es" by (simp add: distinct_remdups_adj_sorted)
qed


section \<open>The address index\<close>





lemma numbered_id_unique:
  assumes "numbered nodes" "(a, u) \<in> set nodes" "(b, u) \<in> set nodes"
  shows "a = b"
proof -
  from assms(1) have "distinct (map snd nodes)"
    by (simp add: numbered_def distinct_map inj_on_def)
  then have "inj_on snd (set nodes)" by (simp add: distinct_map)
  from inj_onD [OF this _ assms(2,3)] show ?thesis by simp
qed

lemma inv02_edges:
  assumes "inv02 (nodes, es, c)" "(u, v) \<in> set es"
  shows "u \<noteq> v \<and> (v, u) \<notin> set es"
proof -
  from assms(1) have num: "numbered nodes" and asc: "edges_ascend nodes es"
    by (simp_all add: inv02_def)
  from asc assms(2) obtain a b where ab: "a < b" "(a, u) \<in> set nodes" "(b, v) \<in> set nodes"
    by (auto simp: edges_ascend_def)
  have "u \<noteq> v"
  proof
    assume "u = v"
    with ab(3) have "(b, u) \<in> set nodes" by simp
    from numbered_id_unique [OF num ab(2) this] ab(1) show False by simp
  qed
  moreover have "(v, u) \<notin> set es"
  proof
    assume "(v, u) \<in> set es"
    with asc obtain a' b' where ab': "a' < b'" "(a', v) \<in> set nodes" "(b', u) \<in> set nodes"
      by (auto simp: edges_ascend_def)
    have 1: "a = b'" by (rule numbered_id_unique [OF num ab(2) ab'(3)])
    have 2: "b = a'" by (rule numbered_id_unique [OF num ab(3) ab'(2)])
    from 1 2 ab(1) ab'(1) show False by simp
  qed
  ultimately show ?thesis by simp
qed

section \<open>The edge list\<close>

text \<open>
  Claim C3. The edge list that a builder writes, builder.cpp as well as the builder of
  version 0.2, holds no edge twice, no edge from a node to itself, and no edge together
  with its reverse: every unordered pair of nodes is stored at most once, however often the
  pair of addresses occurs in the stream.
\<close>

theorem edge_list_simple:
  "(builder_graph input = Inr (n, es) \<longrightarrow>
      distinct es \<and> (\<forall>(u, v)\<in>set es. u \<noteq> v \<and> (v, u) \<notin> set es)) \<and>
   (builder02_run input = Inr (nodes, es2, c) \<longrightarrow>
      distinct es2 \<and> (\<forall>(u, v)\<in>set es2. u \<noteq> v \<and> (v, u) \<notin> set es2))"
proof (intro conjI impI)
  assume g: "builder_graph input = Inr (n, es)"
  note b = builder_graph_Inr [OF g]
  show "distinct es" by (rule b(3))
  show "\<forall>(u, v)\<in>set es. u \<noteq> v \<and> (v, u) \<notin> set es"
  proof (clarify, rule conjI)
    fix u v assume uv: "(u, v) \<in> set es"
    then have lt: "u < v" using lines_edges_set [of u v "getlines input"] by (simp add: b(2))
    then show "u \<noteq> v" by simp
    show "(v, u) \<notin> set es"
    proof
      assume "(v, u) \<in> set es"
      then have "v < u" using lines_edges_set [of v u "getlines input"] by (simp add: b(2))
      with lt show False by simp
    qed
  qed
next
  assume "builder02_run input = Inr (nodes, es2, c)"
  then have "read_lines02 (getlines input) ([], [], 0) = Inr (nodes, es2, c)"
    by (simp add: builder02_run_def)
  from read_lines02_inv [OF inv02_init this] have inv: "inv02 (nodes, es2, c)"
    by simp
  then show "distinct es2" by (simp add: inv02_def)
  show "\<forall>(u, v)\<in>set es2. u \<noteq> v \<and> (v, u) \<notin> set es2"
    using inv02_edges [OF inv] by auto
qed

theorem edge_list_simple_witness:
  "builder_graph ''t:3;1;3;2\<newline>u:1;3:\<newline>'' = Inr (4, [(1, 3), (2, 3)]) \<and>
   builder02_run ''t:3;1;3;2\<newline>u:1;3:\<newline>''
     = Inr ([(1, 0), (2, 1), (3, 2), (0, 3)], [(0, 1), (0, 2), (1, 2)], 4) \<and>
   distinct ([(1, 3), (2, 3)] :: (int \<times> int) list) \<and>
   (1 :: int) \<noteq> 3 \<and> (3, 1) \<notin> set ([(1, 3), (2, 3)] :: (int \<times> int) list) \<and>
   distinct ([(0, 1), (0, 2), (1, 2)] :: (int \<times> int) list) \<and>
   (0 :: int) \<noteq> 2 \<and> (2, 0) \<notin> set ([(0, 1), (0, 2), (1, 2)] :: (int \<times> int) list)"
proof -
  define I where "I = ''t:3;1;3;2\<newline>u:1;3:\<newline>''"
  define E1 where "E1 = ([(1, 3), (2, 3)] :: (int \<times> int) list)"
  define E2 where "E2 = ([(0, 1), (0, 2), (1, 2)] :: (int \<times> int) list)"
  have g: "builder_graph I = Inr (4, E1)"
    unfolding I_def E1_def by code_simp
  have r: "builder02_run I = Inr ([(1, 0), (2, 1), (3, 2), (0, 3)], E2, 4)"
    unfolding I_def E2_def by code_simp
  note t = edge_list_simple [of I 4 E1 "[(1, 0), (2, 1), (3, 2), (0, 3)]" E2 4]
  from t have "builder_graph I = Inr (4, E1) \<longrightarrow>
      distinct E1 \<and> (\<forall>(u, v)\<in>set E1. u \<noteq> v \<and> (v, u) \<notin> set E1)"
    by (rule conjunct1)
  from this g have ab: "distinct E1 \<and> (\<forall>(u, v)\<in>set E1. u \<noteq> v \<and> (v, u) \<notin> set E1)"
    by (rule mp)
  from ab have a: "distinct E1"
    by (rule conjunct1)
  from ab have b: "\<forall>(u, v)\<in>set E1. u \<noteq> v \<and> (v, u) \<notin> set E1"
    by (rule conjunct2)
  from t have "builder02_run I = Inr ([(1, 0), (2, 1), (3, 2), (0, 3)], E2, 4) \<longrightarrow>
      distinct E2 \<and> (\<forall>(u, v)\<in>set E2. u \<noteq> v \<and> (v, u) \<notin> set E2)"
    by (rule conjunct2)
  from this r have cd: "distinct E2 \<and> (\<forall>(u, v)\<in>set E2. u \<noteq> v \<and> (v, u) \<notin> set E2)"
    by (rule mp)
  from cd have c: "distinct E2"
    by (rule conjunct1)
  from cd have d: "\<forall>(u, v)\<in>set E2. u \<noteq> v \<and> (v, u) \<notin> set E2"
    by (rule conjunct2)
  have m1: "(1, 3) \<in> set E1" by (simp add: E1_def)
  from b m1 have "case (1, 3) of (u, v) \<Rightarrow> u \<noteq> v \<and> (v, u) \<notin> set E1"
    by (rule bspec)
  then have b1: "(1 :: int) \<noteq> 3 \<and> (3, 1) \<notin> set E1"
    by simp
  have m2: "(0, 2) \<in> set E2" by (simp add: E2_def)
  from d m2 have "case (0, 2) of (u, v) \<Rightarrow> u \<noteq> v \<and> (v, u) \<notin> set E2"
    by (rule bspec)
  then have d1: "(0 :: int) \<noteq> 2 \<and> (2, 0) \<notin> set E2"
    by simp
  from g r a conjunct1 [OF b1] conjunct2 [OF b1] c conjunct1 [OF d1] conjunct2 [OF d1]
  show ?thesis
    unfolding I_def E1_def E2_def by (intro conjI)
qed


section \<open>Correctness of the union-find engine\<close>



































section \<open>The component map of a graph that was read\<close>










section \<open>The output of clustering.cpp\<close>





section \<open>The edge count of the header\<close>

lemma analyzer_components_edge_count:
  assumes "length hn = 4" "length hm = 4" "length hm' = 4"
    and "0 \<le> read_swapped h hm" "0 \<le> read_swapped h hm'"
  shows "analyzer_components h (hn @ hm @ body) = analyzer_components h (hn @ hm' @ body)"
  using assms
  by (simp add: analyzer_components_def analyzer_read_graph_def lemon_read_graph_def Let_def)

lemma edge_pairs_append_flat: "edge_pairs (flat_edges es @ xs) = es @ edge_pairs xs"
  by (induction es) (auto simp: flat_edges_def)

lemma edge_pairs_zeros: "edge_pairs (replicate (2 * k) 0) = replicate k (0, 0)"
  by (induction k) auto

lemma valid_edges_nonneg:
  "valid_edges n es \<Longrightarrow> list_all (\<lambda>(u, v). 0 \<le> u \<and> 0 \<le> v) es"
  by (auto simp: valid_edges_def valid_vertex_def list_all_iff)

lemma read_graph_binary_padded:
  assumes n: "in_int_range n" "0 \<le> n" and m: "in_int_range (2 * int m)"
    and es: "edges_in_range es" "length es \<le> m"
    and ve: "valid_edges n (es @ replicate (m - length es) (0, 0))"
  shows "read_graph_binary h (write_swapped h n @ write_swapped h (int m) @ edge_bytes h es) 0
     = Inr \<lparr>num_nodes = n, edge_list = es @ replicate (m - length es) (0, 0)\<rparr>"
proof -
  let ?fl = "write_swapped h n @ write_swapped h (int m) @ edge_bytes h es"
  have mr: "in_int_range (int m)"
    using m by (simp add: in_int_range_def int_min_def int_max_def)
  have l: "\<not> length ?fl < 8" by (simp add: length_write_swapped)
  have t1: "take 4 (take 8 ?fl) = write_swapped h n"
    by (simp add: length_write_swapped)
  have t2: "take 4 (drop 4 (take 8 ?fl)) = write_swapped h (int m)"
    by (simp add: length_write_swapped)
  have d: "drop 8 ?fl = edge_bytes h es"
    by (simp add: length_write_swapped)
  from ve have "valid_edges n es" by (simp add: valid_edges_def)
  then have u: "map as_unsigned (flat_edges es) = flat_edges es"
    by (intro as_unsigned_edges [OF es(1)] valid_edges_nonneg)
  have "2 * length es \<le> length (replicate (2 * m) (0 :: int))" using es(2) by simp
  then have lp: "read_edge_loop h buf (edge_bytes h es) 0 (replicate (2 * m) 0)
      = Inr (flat_edges es @ replicate (2 * (m - length es)) 0)" for buf
    using read_edge_loop_edge_bytes [of 0 es "replicate (2 * m) 0" h buf]
    by (simp add: diff_mult_distrib2 u)
  have n2: "nat (2 * int m) = 2 * m" by simp
  show ?thesis
    unfolding read_graph_binary_def Let_def t1 t2 d
    using l n m ve
    by (simp add: read_write_swapped [OF n(1)] read_write_swapped [OF mr] n2 lp
        edge_pairs_append_flat edge_pairs_zeros del: replicate_add)
qed

text \<open>
  Claim C6, amended. No analyzer compares the edge count \<open>M\<close> of the header with the
  number of records that follow. analyzer.cpp uses \<open>M\<close> for a reservation only: its
  component map is the same for every \<open>M\<close> that is not negative. clustering.cpp uses
  \<open>M\<close> as the size of a zero-filled edge vector: a file with fewer than \<open>M\<close>
  records is read without an error, as the graph of its records followed by one edge
  (0, 0) for every missing record.
\<close>

theorem edge_count_unchecked:
  "(length hn = 4 \<longrightarrow> length hm = 4 \<longrightarrow> length hm' = 4 \<longrightarrow>
      0 \<le> read_swapped h hm \<longrightarrow> 0 \<le> read_swapped h hm' \<longrightarrow>
      analyzer_components h (hn @ hm @ body) = analyzer_components h (hn @ hm' @ body)) \<and>
   (in_int_range n \<longrightarrow> 0 \<le> n \<longrightarrow> in_int_range (2 * int m) \<longrightarrow>
      edges_in_range es \<longrightarrow> length es \<le> m \<longrightarrow>
      valid_edges n (es @ replicate (m - length es) (0, 0)) \<longrightarrow>
      read_graph_binary h (write_swapped h n @ write_swapped h (int m) @ edge_bytes h es) 0
        = Inr \<lparr>num_nodes = n, edge_list = es @ replicate (m - length es) (0, 0)\<rparr>)"
  using analyzer_components_edge_count [of hn hm hm' h body]
    read_graph_binary_padded [of n m es h]
  by blast

theorem edge_count_unchecked_witness:
  "analyzer_components Little_Endian ([0, 0, 0, 2] @ [0, 0, 0, 5] @ [0, 0, 0, 0, 0, 0, 0, 1])
     = analyzer_components Little_Endian ([0, 0, 0, 2] @ [0, 0, 0, 1] @ [0, 0, 0, 0, 0, 0, 0, 1]) \<and>
   read_graph_binary Little_Endian
       (write_swapped Little_Endian 2 @ write_swapped Little_Endian (int 3) @
        edge_bytes Little_Endian [(0, 1)]) 0
     = Inr \<lparr>num_nodes = 2,
            edge_list = [(0, 1)] @ replicate (3 - length ([(0, 1)] :: (int \<times> int) list)) (0, 0)\<rparr>"
proof -
  have a: "length ([0, 0, 0, 2] :: byte list) = 4" "length ([0, 0, 0, 5] :: byte list) = 4"
    "length ([0, 0, 0, 1] :: byte list) = 4"
    by simp_all
  have b: "0 \<le> read_swapped Little_Endian [0, 0, 0, 5]" "0 \<le> read_swapped Little_Endian [0, 0, 0, 1]"
    by code_simp+
  have c: "in_int_range 2" "(0 :: int) \<le> 2" "in_int_range (2 * int 3)"
    by code_simp+
  have d: "edges_in_range [(0, 1)]" "length ([(0, 1)] :: (int \<times> int) list) \<le> 3"
    by code_simp+
  have e: "valid_edges 2 ([(0, 1)] @ replicate (3 - length ([(0, 1)] :: (int \<times> int) list)) (0, 0))"
    by code_simp
  from edge_count_unchecked [of "[0, 0, 0, 2]" "[0, 0, 0, 5]" "[0, 0, 0, 1]" Little_Endian
      "[0, 0, 0, 0, 0, 0, 0, 1]" 2 3 "[(0, 1)]"] a b c d e
  show ?thesis
    by blast
qed

text \<open>
  The claim C6 as it is written fails: the file with \<open>N = 2\<close>, \<open>M = 5\<close> and the
  single record (0, 1) has 16 bytes, not 48, and both analyzers return a component
  assignment for it.
\<close>

theorem edge_count_mismatch_counterexample:
  "length ([0, 0, 0, 2, 0, 0, 0, 5, 0, 0, 0, 0, 0, 0, 0, 1] :: byte list) = 16 \<and>
   read_swapped Little_Endian (take 4 (drop 4 [0, 0, 0, 2, 0, 0, 0, 5, 0, 0, 0, 0, 0, 0, 0, 1])) = 5 \<and>
   length (read_records (read_swapped Little_Endian)
     (drop 8 [0, 0, 0, 2, 0, 0, 0, 5, 0, 0, 0, 0, 0, 0, 0, 1])) = 1 \<and>
   analyzer_components Little_Endian [0, 0, 0, 2, 0, 0, 0, 5, 0, 0, 0, 0, 0, 0, 0, 1] = Inr [0, 0] \<and>
   clustering_main Little_Endian [0, 0, 0, 2, 0, 0, 0, 5, 0, 0, 0, 0, 0, 0, 0, 1] None
     = Inr [Header, Row 0 0, Row 1 0]"
  by code_simp

section \<open>builder.cpp followed by clustering.cpp\<close>













section \<open>Records that do not parse\<close>























end
